theory Spec2Isabelle
  imports Main
begin

unbundle bit_operations_syntax

section \<open>The field reader of import.c\<close>

subsection \<open>Characters, diagnostics and the reader context\<close>

text \<open>
  A C \<open>int\<close> that holds the result of \<open>fgetc\<close> is an \<open>int\<close> here: a byte is
  \<open>0..255\<close> and \<open>EOF\<close> is \<open>-1\<close>. The bytes of the file and of the field buffer are
  \<open>char\<close>s (8 bits); \<open>of_char\<close> reads a byte as an \<open>int\<close> and \<open>char_of\<close> is the
  cast \<open>(char)c\<close>. The counters \<open>n\<close>, \<open>nAlloc\<close>, \<open>nLine\<close> and \<open>i\<close> are C
  \<open>int\<close>s and are modelled as unbounded \<open>int\<close>s: no property below is about a file of
  \<open>2^31\<close> lines or a field of \<open>2^30\<close> bytes.
\<close>

definition EOF :: int where
  "EOF = - 1"

text \<open>The character constants the source compares with: the double quote and \<open>'\r'\<close>.\<close>

definition cQuote :: int where
  "cQuote = 34"

definition cCR :: int where
  "cCR = 13"

text \<open>
  Every line the source prints on \<open>stderr\<close> is one value of \<open>diag\<close>, with the
  arguments of its format string: the file name and the line number come first.
\<close>

datatype diag =
    UnescapedQuote string int
  | UnterminatedQuote string int
  | ColSepRequired
  | ColSepMulti
  | RowSepRequired
  | RowSepMulti
  | CannotOpen string
  | ErrOutOfMemory
  | EmptyFile string
  | CreateFailed string string
  | SqlError string
  | ShortRow string int int int
  | LongRow string int int int
  | InsertFailed string int string

text \<open>
  \<open>struct ImportCtx\<close>. The stream \<open>in\<close> is the list of the bytes not yet read; the
  buffer \<open>z\<close> is \<open>None\<close> for the null pointer and otherwise the allocated bytes, all
  of them, not only the first \<open>n\<close>. The field \<open>err\<close> is not in the struct: it is what
  has been written to \<open>stderr\<close> so far.
\<close>

record ImportCtx =
  zFile :: string
  inp :: "char list"
  z :: "char list option"
  n :: int
  nAlloc :: int
  nLine :: int
  cTerm :: int
  cColSep :: int
  cRowSep :: int
  err :: "diag list"

text \<open>
  What ends a call without a result: \<open>exit(1)\<close> after a failed allocation, and an
  access outside the buffer (undefined behaviour in C, a fault here).
\<close>

datatype fault = OutOfMemory | MemoryFault

text \<open>
  \<open>sqlite3_realloc64\<close> is not part of import.c: it is a parameter. It is given the old
  buffer and the new size and returns the new buffer, or \<open>None\<close> when it fails.
\<close>

type_synonym realloc = "char list option \<Rightarrow> int \<Rightarrow> char list option"

definition fgetc :: "ImportCtx \<Rightarrow> int \<times> ImportCtx" where
  "fgetc p = (case inp p of
                [] \<Rightarrow> (EOF, p)
              | x # xs \<Rightarrow> (of_char x, p\<lparr>inp := xs\<rparr>))"

subsection \<open>import_append_char\<close>

definition import_append_char :: "realloc \<Rightarrow> ImportCtx \<Rightarrow> int \<Rightarrow> fault + ImportCtx" where
  "import_append_char R p c =
     (case (if n p + 1 \<ge> nAlloc p
            then (let na = nAlloc p + (nAlloc p + 100) in
                  case R (z p) na of
                    None \<Rightarrow> Inl OutOfMemory
                  | Some b \<Rightarrow> Inr (p\<lparr>nAlloc := na, z := Some b\<rparr>))
            else Inr p) of
        Inl f \<Rightarrow> Inl f
      | Inr q \<Rightarrow>
          (case z q of
             None \<Rightarrow> Inl MemoryFault
           | Some b \<Rightarrow>
               if 0 \<le> n q \<and> n q < int (length b)
               then Inr (q\<lparr>z := Some (b[nat (n q) := char_of c]), n := n q + 1\<rparr>)
               else Inl MemoryFault))"

subsection \<open>csv_read_one_field\<close>

text \<open>The loop \<open>do{ p->n--; }while( p->z[p->n]!=cQuote )\<close> of the quoted branch.\<close>

function strip_quote :: "ImportCtx \<Rightarrow> fault + ImportCtx" where
  "strip_quote p =
     (let p1 = p\<lparr>n := n p - 1\<rparr> in
      case z p1 of
        None \<Rightarrow> Inl MemoryFault
      | Some b \<Rightarrow>
          if n p1 < 0 \<or> int (length b) \<le> n p1 then Inl MemoryFault
          else if of_char (b ! nat (n p1)) \<noteq> cQuote then strip_quote p1
          else Inr p1)"
  by pat_completeness auto
termination
  by (relation "measure (\<lambda>p. nat (n p))") auto

declare strip_quote.simps [simp del]

text \<open>
  The \<open>while( 1 )\<close> loop of the quoted branch; \<open>startLine\<close>, \<open>pc\<close> and \<open>ppc\<close> are its
  local variables, and \<open>cQuote\<close> is the double quote that opened the field.
\<close>

function csv_quoted_loop ::
    "realloc \<Rightarrow> int \<Rightarrow> int \<Rightarrow> int \<Rightarrow> ImportCtx \<Rightarrow> fault + ImportCtx" where
  "csv_quoted_loop R startLine pc ppc p =
     (case fgetc p of (c, p1) \<Rightarrow>
        let p2 = (if c = cRowSep p1 then p1\<lparr>nLine := nLine p1 + 1\<rparr> else p1) in
        if c = cQuote \<and> pc = cQuote then csv_quoted_loop R startLine 0 ppc p2
        else if (c = cColSep p2 \<and> pc = cQuote)
              \<or> (c = cRowSep p2 \<and> pc = cQuote)
              \<or> (c = cRowSep p2 \<and> pc = cCR \<and> ppc = cQuote)
              \<or> (c = EOF \<and> pc = cQuote)
        then (case strip_quote p2 of
                Inl f \<Rightarrow> Inl f
              | Inr p3 \<Rightarrow> Inr (p3\<lparr>cTerm := c\<rparr>))
        else
          let p3 = (if pc = cQuote \<and> c \<noteq> cCR
                    then p2\<lparr>err := err p2 @ [UnescapedQuote (zFile p2) (nLine p2)]\<rparr>
                    else p2) in
          if c = EOF
          then Inr (p3\<lparr>err := err p3 @ [UnterminatedQuote (zFile p3) startLine],
                      cTerm := c\<rparr>)
          else (case import_append_char R p3 c of
                  Inl f \<Rightarrow> Inl f
                | Inr p4 \<Rightarrow> csv_quoted_loop R startLine c pc p4))"
  by pat_completeness auto
termination
proof (relation "measure (\<lambda>(R, startLine, pc, ppc, p). length (inp p))", goal_cases)
  case 1
  show ?case by simp
next
  case (2 R startLine pc ppc p c p1 p2)
  have "fgetc p = (c, p1)"
    using 2(1) by simp
  moreover have "c \<noteq> EOF"
    using 2(3) by (simp add: cQuote_def EOF_def)
  ultimately have "length (inp p1) < length (inp p)"
    by (auto simp: fgetc_def split: list.splits)
  moreover have "inp p2 = inp p1"
    by (simp add: 2(2))
  ultimately show ?case by simp
next
  case (3 R startLine pc ppc p c p1 p2 p3 p4)
  have "fgetc p = (c, p1)"
    using 3(1) by simp
  then have "length (inp p1) < length (inp p)"
    using 3(6) by (auto simp: fgetc_def split: list.splits)
  moreover have "inp p2 = inp p1"
    by (simp add: 3(2))
  moreover have "inp p3 = inp p2"
    by (simp add: 3(5))
  moreover have "inp p4 = inp p3"
    using 3(7)
    by (auto simp: import_append_char_def Let_def split: if_splits option.splits)
  ultimately show ?case by simp
qed

declare csv_quoted_loop.simps [simp del]

text \<open>The loop \<open>while( c!=EOF && c!=cSep && c!=rSep )\<close> of the unquoted branch.\<close>

function csv_unquoted_loop :: "realloc \<Rightarrow> int \<Rightarrow> ImportCtx \<Rightarrow> fault + (int \<times> ImportCtx)" where
  "csv_unquoted_loop R c p =
     (if c \<noteq> EOF \<and> c \<noteq> cColSep p \<and> c \<noteq> cRowSep p
      then (case import_append_char R p c of
              Inl f \<Rightarrow> Inl f
            | Inr p1 \<Rightarrow> (case fgetc p1 of (c', p2) \<Rightarrow> csv_unquoted_loop R c' p2))
      else Inr (c, p))"
  by pat_completeness auto
termination
proof (relation "measure (\<lambda>(R, c, p). length (inp p) + (if c = EOF then 0 else 1))",
       goal_cases)
  case 1
  show ?case by simp
next
  case (2 R c p p1 c' p2)
  have a: "inp p1 = inp p"
    using 2(2)
    by (auto simp: import_append_char_def Let_def split: if_splits option.splits)
  have b: "fgetc p1 = (c', p2)"
    using 2(3) by simp
  have c: "c \<noteq> EOF"
    using 2(1) by simp
  from b have "length (inp p2) \<le> length (inp p1)"
    by (auto simp: fgetc_def split: list.splits)
  moreover from b have "c' \<noteq> EOF \<Longrightarrow> length (inp p2) < length (inp p1)"
    by (auto simp: fgetc_def split: list.splits)
  ultimately show ?case
    using a c by (cases "c' = EOF") simp_all
qed

declare csv_unquoted_loop.simps [simp del]

text \<open>Lines 200 and 201: \<open>if( p->z ) p->z[p->n] = 0; return p->z;\<close>\<close>

definition terminate_field :: "ImportCtx \<Rightarrow> fault + (char list option \<times> ImportCtx)" where
  "terminate_field p =
     (case z p of
        None \<Rightarrow> Inr (None, p)
      | Some b \<Rightarrow>
          if 0 \<le> n p \<and> n p < int (length b)
          then (let b' = b[nat (n p) := CHR 0x00] in Inr (Some b', p\<lparr>z := Some b'\<rparr>))
          else Inl MemoryFault)"

text \<open>Lines 194 to 198, after the unquoted loop has stopped at \<open>c\<close>.\<close>

definition csv_unquoted_end :: "int \<Rightarrow> ImportCtx \<Rightarrow> fault + ImportCtx" where
  "csv_unquoted_end c p =
     (if c = cRowSep p
      then (let p1 = p\<lparr>nLine := nLine p + 1\<rparr> in
            if n p1 > 0
            then (case z p1 of
                    None \<Rightarrow> Inl MemoryFault
                  | Some b \<Rightarrow>
                      if int (length b) \<le> n p1 - 1 then Inl MemoryFault
                      else if of_char (b ! nat (n p1 - 1)) = cCR
                      then Inr (p1\<lparr>n := n p1 - 1, cTerm := c\<rparr>)
                      else Inr (p1\<lparr>cTerm := c\<rparr>))
            else Inr (p1\<lparr>cTerm := c\<rparr>))
      else Inr (p\<lparr>cTerm := c\<rparr>))"

text \<open>
  The result is the returned pointer: \<open>None\<close> for \<open>return 0\<close>, and the buffer
  \<open>p->z\<close> otherwise. \<open>seenInterrupt\<close> is the file's volatile flag, read once here.
\<close>

definition csv_read_one_field ::
    "realloc \<Rightarrow> bool \<Rightarrow> ImportCtx \<Rightarrow> fault + (char list option \<times> ImportCtx)" where
  "csv_read_one_field R seenInterrupt p =
     (case fgetc (p\<lparr>n := 0\<rparr>) of (c, p1) \<Rightarrow>
        if c = EOF \<or> seenInterrupt then Inr (None, p1\<lparr>cTerm := EOF\<rparr>)
        else if c = cQuote
        then (case csv_quoted_loop R (nLine p1) 0 0 p1 of
                Inl f \<Rightarrow> Inl f
              | Inr p2 \<Rightarrow> terminate_field p2)
        else (case csv_unquoted_loop R c p1 of
                Inl f \<Rightarrow> Inl f
              | Inr (c', p2) \<Rightarrow>
                  (case csv_unquoted_end c' p2 of
                     Inl f \<Rightarrow> Inl f
                   | Inr p3 \<Rightarrow> terminate_field p3)))"

subsection \<open>ascii_read_one_field\<close>

definition ascii_read_one_field ::
    "realloc \<Rightarrow> bool \<Rightarrow> ImportCtx \<Rightarrow> fault + (char list option \<times> ImportCtx)" where
  "ascii_read_one_field R seenInterrupt p =
     (case fgetc (p\<lparr>n := 0\<rparr>) of (c, p1) \<Rightarrow>
        if c = EOF \<or> seenInterrupt then Inr (None, p1\<lparr>cTerm := EOF\<rparr>)
        else (case csv_unquoted_loop R c p1 of
                Inl f \<Rightarrow> Inl f
              | Inr (c', p2) \<Rightarrow>
                  terminate_field
                    ((if c' = cRowSep p2 then p2\<lparr>nLine := nLine p2 + 1\<rparr> else p2)
                       \<lparr>cTerm := c'\<rparr>)))"


text \<open>
  \<open>xRead\<close>, the function pointer chosen at lines 302 to 306 from the mode.
\<close>

definition MODE_Csv :: int where
  "MODE_Csv = 7"

definition MODE_Ascii :: int where
  "MODE_Ascii = 9"

definition xRead ::
    "int \<Rightarrow> realloc \<Rightarrow> bool \<Rightarrow> ImportCtx \<Rightarrow> fault + (char list option \<times> ImportCtx)" where
  "xRead md = (if md = MODE_Ascii then ascii_read_one_field else csv_read_one_field)"

section \<open>sqlite_import\<close>

subsection \<open>The shell state and its separators\<close>

record ShellState =
  mode :: int
  colSeparator :: string
  rowSeparator :: string

definition SEP_Row :: string where
  "SEP_Row = [CHR 0x0A]"

definition SEP_Comma :: string where
  "SEP_Comma = '',''"

definition SEP_CrLf :: string where
  "SEP_CrLf = [CHR 0x0D, CHR 0x0A]"

definition strlen30 :: "string \<Rightarrow> int" where
  "strlen30 s = 0x3fffffff AND int (length s)"

text \<open>
  \<open>sqlite3_snprintf(size, buf, text)\<close> with a format that has no conversion: the
  text, cut to \<open>size - 1\<close> bytes.
\<close>

definition sqlite3_snprintf :: "nat \<Rightarrow> string \<Rightarrow> string" where
  "sqlite3_snprintf sz s = take (sz - 1) s"

text \<open>Lines 253 to 255: the state \<open>sqlite_import\<close> builds for itself.\<close>

definition shell_init :: ShellState where
  "shell_init = \<lparr>mode = MODE_Csv,
                  colSeparator = sqlite3_snprintf 20 SEP_Comma,
                  rowSeparator = sqlite3_snprintf 20 SEP_CrLf\<rparr>"

text \<open>
  Lines 258 to 286: the four checks of the separators, each with its message, and the
  change of the row separator from CRLF to LF in CSV mode.
\<close>

definition import_separators :: "ShellState \<Rightarrow> diag + ShellState" where
  "import_separators p =
     (let nSep = strlen30 (colSeparator p) in
      if nSep = 0 then Inl ColSepRequired
      else if nSep > 1 then Inl ColSepMulti
      else
        let nSep = strlen30 (rowSeparator p) in
        if nSep = 0 then Inl RowSepRequired
        else
          let fix = (nSep = 2 \<and> mode p = MODE_Csv \<and> rowSeparator p = SEP_CrLf);
              p1 = (if fix then p\<lparr>rowSeparator := sqlite3_snprintf 20 SEP_Row\<rparr> else p);
              nSep = (if fix then strlen30 (rowSeparator p1) else nSep)
          in if nSep > 1 then Inl RowSepMulti else Inr p1)"

subsection \<open>The database, the files and the allocator\<close>

text \<open>
  The SQLite library and the C library are not part of import.c. Each request to the
  database is a \<open>db_op\<close>; the connection answers a request from the requests made
  before it. \<open>Step row\<close> stands for \<open>sqlite3_step\<close> followed by
  \<open>sqlite3_reset\<close> with the values bound at that moment, \<open>None\<close> for NULL; its
  \<open>rc\<close> is the result of the reset. \<open>errmsg\<close> is what \<open>sqlite3_errmsg\<close> returns
  after the request, and \<open>ncol\<close> what \<open>sqlite3_column_count\<close> returns for a
  prepared statement.
\<close>

datatype db_op =
    Prepare string
  | Exec string
  | GetAutocommit
  | Step "string option list"

record reply =
  rc :: int
  errmsg :: string
  ncol :: nat

type_synonym sqlite3 = "db_op list \<Rightarrow> db_op \<Rightarrow> reply"

record env =
  db :: sqlite3
  fopen :: "string \<Rightarrow> char list option"
  popen :: "string \<Rightarrow> char list option"
  realloc64 :: realloc
  malloc_ok :: "int \<Rightarrow> bool"

text \<open>
  What a call of \<open>sqlite_import\<close> leaves behind when it returns: the returned value,
  the lines on \<open>stderr\<close>, the requests made to the database, whether the input stream
  is still open and whether the field buffer is still allocated.
\<close>

record outcome =
  status :: int
  stderr_out :: "diag list"
  db_log :: "db_op list"
  stream_open :: bool
  buffer_live :: bool

definition returns :: "int \<Rightarrow> bool \<Rightarrow> ImportCtx \<Rightarrow> db_op list \<Rightarrow> outcome" where
  "returns v opened c lg =
     \<lparr>status = v, stderr_out = err c, db_log = lg, stream_open = opened,
      buffer_live = (z c \<noteq> None)\<rparr>"

definition say :: "diag \<Rightarrow> ImportCtx \<Rightarrow> ImportCtx" where
  "say d c = c\<lparr>err := err c @ [d]\<rparr>"

text \<open>\<open>sqlite3_free(sCtx.z)\<close>: the buffer is no longer allocated.\<close>

definition free_z :: "ImportCtx \<Rightarrow> ImportCtx" where
  "free_z c = c\<lparr>z := None\<rparr>"

text \<open>A C string read from a buffer: the bytes before the first NUL.\<close>

definition c_str :: "char list \<Rightarrow> string" where
  "c_str b = takeWhile (\<lambda>x. x \<noteq> CHR 0x00) b"

text \<open>\<open>s[0]\<close> of a C string, as an \<open>int\<close>: the terminating NUL when it is empty.\<close>

definition first_char :: "string \<Rightarrow> int" where
  "first_char s = (case s of [] \<Rightarrow> 0 | x # _ \<Rightarrow> of_char x)"

text \<open>The conversion \<open>%w\<close> of \<open>sqlite3_mprintf\<close>: every double quote is doubled.\<close>

definition esc_w :: "string \<Rightarrow> string" where
  "esc_w s = concat (map (\<lambda>x. if x = CHR 0x22 then [x, x] else [x]) s)"

text \<open>\<open>sqlite3_strglob("no such table: *", msg)==0\<close>\<close>

definition no_such_table :: "string \<Rightarrow> bool" where
  "no_such_table msg = (take 15 msg = ''no such table: '')"

subsection \<open>Opening the input and finding the columns\<close>

text \<open>
  Lines 287 to 312. The result is the outcome of an early \<open>return\<close>, or the shell
  state and the reader context with which the function goes on.
\<close>

definition import_open :: "env \<Rightarrow> string \<Rightarrow> outcome + (ShellState \<times> ImportCtx)" where
  "import_open E zFile0 =
     (case import_separators shell_init of
        Inl d \<Rightarrow> Inl \<lparr>status = 1, stderr_out = [d], db_log = [], stream_open = False,
                      buffer_live = False\<rparr>
      | Inr p \<Rightarrow>
          (case (if first_char zFile0 = of_char (CHR ''|'')
                 then (popen E (tl zFile0), ''<pipe>'')
                 else (fopen E zFile0, zFile0)) of
             (None, name) \<Rightarrow>
               Inl \<lparr>status = 1, stderr_out = [CannotOpen zFile0], db_log = [],
                    stream_open = False, buffer_live = False\<rparr>
           | (Some bytes, name) \<Rightarrow>
               Inr (p, \<lparr>zFile = name, inp = bytes, z = None, n = 0, nAlloc = 0, nLine = 1,
                        cTerm = 0, cColSep = first_char (colSeparator p),
                        cRowSep = first_char (rowSeparator p), err = []\<rparr>)))"

text \<open>
  The loop of lines 325 to 329, which reads the first row as the column names of the
  table to create. It stops when \<open>xRead\<close> returns the null pointer.
\<close>

partial_function (option) read_header ::
    "realloc \<Rightarrow> int \<Rightarrow> string \<Rightarrow> char \<Rightarrow> ImportCtx
       \<Rightarrow> (fault + (string \<times> char \<times> ImportCtx)) option" where
  "read_header R md zCreate cSep p =
     (case xRead md R False p of
        Inl f \<Rightarrow> Some (Inl f)
      | Inr (None, p1) \<Rightarrow> Some (Inr (zCreate, cSep, p1))
      | Inr (Some b, p1) \<Rightarrow>
          (let zCreate1 = zCreate @ [cSep] @ [CHR 0x0A] @ ''  '' @ [CHR 0x22]
                            @ esc_w (c_str b) @ [CHR 0x22] @ '' TEXT''
           in if cTerm p1 \<noteq> cColSep p1 then Some (Inr (zCreate1, CHR '','', p1))
              else read_header R md zCreate1 (CHR '','') p1))"

declare read_header.simps [code]

text \<open>
  Lines 349 to 359, with the result \<open>r\<close> of the last \<open>sqlite3_prepare_v2\<close> of the
  SELECT. The function goes on with \<open>nByte\<close>, \<open>nCol\<close>, the context and the requests
  made so far.
\<close>

definition schema_tail ::
    "int \<Rightarrow> reply \<Rightarrow> ImportCtx \<Rightarrow> db_op list
       \<Rightarrow> outcome + (int \<times> int \<times> ImportCtx \<times> db_op list)" where
  "schema_tail nByte r c lg =
     (if rc r \<noteq> 0 then Inl (returns 1 False (say (SqlError (errmsg r)) c) lg)
      else
        let nCol = int (ncol r) in
        if nCol = 0 then Inl (returns 0 True c lg)
        else Inr (nByte, nCol, c, lg))"

text \<open>Lines 313 to 348.\<close>

definition import_schema ::
    "env \<Rightarrow> int \<Rightarrow> string \<Rightarrow> ImportCtx
       \<Rightarrow> (fault + (outcome + (int \<times> int \<times> ImportCtx \<times> db_op list))) option" where
  "import_schema E md zTable c0 =
     (let zSql = ''SELECT * FROM '' @ zTable in
      if \<not> malloc_ok E (int (length zSql) + 1)
      then Some (Inr (Inl (returns 1 False (say ErrOutOfMemory c0) [])))
      else
        let nByte = strlen30 zSql;
            r1 = db E [] (Prepare zSql);
            lg1 = [Prepare zSql]
        in case import_append_char (realloc64 E) c0 0 of
             Inl f \<Rightarrow> Some (Inl f)
           | Inr c1 \<Rightarrow>
               if rc r1 \<noteq> 0 \<and> no_such_table (errmsg r1)
               then (case read_header (realloc64 E) md (''CREATE TABLE '' @ zTable)
                            (CHR ''('') c1 of
                       None \<Rightarrow> None
                     | Some (Inl f) \<Rightarrow> Some (Inl f)
                     | Some (Inr (zCreate, cSep, c2)) \<Rightarrow>
                         if cSep = CHR ''(''
                         then Some (Inr (Inl (returns 1 False
                                 (say (EmptyFile (zFile c2)) (free_z c2)) lg1)))
                         else
                           let zCreate1 = zCreate @ [CHR 0x0A] @ '')'';
                               r2 = db E lg1 (Exec zCreate1);
                               lg2 = lg1 @ [Exec zCreate1]
                           in if rc r2 \<noteq> 0
                              then Some (Inr (Inl (returns 1 False
                                      (free_z (say (CreateFailed zTable (errmsg r2)) c2))
                                      lg2)))
                              else Some (Inr (schema_tail nByte
                                      (db E lg2 (Prepare zSql)) c2
                                      (lg2 @ [Prepare zSql]))))
               else Some (Inr (schema_tail nByte r1 c1 lg1)))"

subsection \<open>The INSERT statement and the rows\<close>

text \<open>
  The state of the row loop: the reader context, the requests made to the database and
  the values bound to the parameters \<open>1..nCol\<close> of the INSERT statement, which all
  start as NULL and which \<open>sqlite3_reset\<close> keeps.
\<close>

record loader =
  sCtx :: ImportCtx
  dbLog :: "db_op list"
  binds :: "string option list"

text \<open>The text of lines 366 to 373.\<close>

definition insert_sql :: "int \<Rightarrow> int \<Rightarrow> string \<Rightarrow> string" where
  "insert_sql nByte nCol zTable =
     sqlite3_snprintf (nat (nByte + 20))
        (''INSERT INTO '' @ [CHR 0x22] @ esc_w zTable @ [CHR 0x22] @ '' VALUES(?'')
       @ concat (replicate (nat (nCol - 1)) '',?'') @ '')''"

text \<open>Lines 360 to 383.\<close>

definition import_insert ::
    "env \<Rightarrow> string \<Rightarrow> int \<Rightarrow> int \<Rightarrow> ImportCtx \<Rightarrow> db_op list
       \<Rightarrow> outcome + (bool \<times> loader)" where
  "import_insert E zTable nByte nCol c lg =
     (if \<not> malloc_ok E (nByte * 2 + 20 + nCol * 2)
      then Inl (returns 1 False (say ErrOutOfMemory c) lg)
      else
        let zSql = insert_sql nByte nCol zTable;
            r = db E lg (Prepare zSql);
            lg1 = lg @ [Prepare zSql]
        in if rc r \<noteq> 0
           then Inl (returns 1 False (say (SqlError (errmsg r)) c) lg1)
           else
             let needCommit = (rc (db E lg1 GetAutocommit) \<noteq> 0);
                 lg2 = lg1 @ [GetAutocommit];
                 lg3 = (if needCommit then lg2 @ [Exec ''BEGIN''] else lg2)
             in Inr (needCommit,
                     \<lparr>sCtx = c, dbLog = lg3, binds = replicate (nat nCol) None\<rparr>))"

text \<open>
  \<open>sqlite3_bind_text(pStmt, i, z, -1, SQLITE_TRANSIENT)\<close> binds NULL for the null
  pointer and otherwise the C string at \<open>z\<close>; \<open>sqlite3_bind_null(pStmt, i)\<close> binds
  NULL. An index outside \<open>1..nCol\<close> is refused by SQLite and changes nothing.
\<close>

definition bind_value :: "int \<Rightarrow> string option \<Rightarrow> loader \<Rightarrow> loader" where
  "bind_value i v s =
     (if 1 \<le> i \<and> i \<le> int (length (binds s))
      then s\<lparr>binds := (binds s)[nat (i - 1) := v]\<rparr>
      else s)"

definition sqlite3_bind_text :: "int \<Rightarrow> char list option \<Rightarrow> loader \<Rightarrow> loader" where
  "sqlite3_bind_text i zr s = bind_value i (map_option c_str zr) s"

definition sqlite3_bind_null :: "int \<Rightarrow> loader \<Rightarrow> loader" where
  "sqlite3_bind_null i s = bind_value i None s"

text \<open>Line 405: \<open>while( i<=nCol ){ sqlite3_bind_null(pStmt, i); i++; }\<close>\<close>

function null_fill :: "int \<Rightarrow> int \<Rightarrow> loader \<Rightarrow> int \<times> loader" where
  "null_fill nCol i s =
     (if i \<le> nCol then null_fill nCol (i + 1) (sqlite3_bind_null i s) else (i, s))"
  by pat_completeness auto
termination
  by (relation "measure (\<lambda>(nCol, i, s). nat (nCol + 1 - i))") auto

declare null_fill.simps [simp del]

text \<open>
  The \<open>for\<close> loop of lines 386 to 407, from the value \<open>i\<close> of its counter. The result
  is the counter when the loop is left, by its condition or by a \<open>break\<close>.
\<close>

function row_fields ::
    "env \<Rightarrow> int \<Rightarrow> int \<Rightarrow> int \<Rightarrow> int \<Rightarrow> loader \<Rightarrow> fault + (int \<times> loader)" where
  "row_fields E md nCol startLine i s =
     (if i < nCol
      then (case xRead md (realloc64 E) False (sCtx s) of
              Inl f \<Rightarrow> Inl f
            | Inr (zr, c1) \<Rightarrow>
                if zr = None \<and> i = 0 then Inr (i, s\<lparr>sCtx := c1\<rparr>)
                else if md = MODE_Ascii
                        \<and> (case zr of None \<Rightarrow> True | Some b \<Rightarrow> c_str b = [])
                        \<and> i = 0
                then Inr (i, s\<lparr>sCtx := c1\<rparr>)
                else
                  let s1 = sqlite3_bind_text (i + 1) zr (s\<lparr>sCtx := c1\<rparr>) in
                  if i < nCol - 1 \<and> cTerm c1 \<noteq> cColSep c1
                  then
                    (case null_fill nCol (i + 2)
                            (s1\<lparr>sCtx := say (ShortRow (zFile c1) startLine nCol (i + 1))
                                          c1\<rparr>) of
                       (i1, s2) \<Rightarrow> row_fields E md nCol startLine (i1 + 1) s2)
                  else row_fields E md nCol startLine (i + 1) s1)
      else Inr (i, s))"
  by pat_completeness auto
termination
proof (relation "measure (\<lambda>(E, md, nCol, startLine, i, s). nat (nCol - i))", goal_cases)
  case 1
  show ?case by simp
next
  case (2 E md nCol startLine i s b zr c1 s1 i1 s2)
  have "\<And>k t j u. null_fill nCol k t = (j, u) \<Longrightarrow> k \<le> j"
  proof -
    fix k t j u
    show "null_fill nCol k t = (j, u) \<Longrightarrow> k \<le> j"
      by (induction nCol k t rule: null_fill.induct)
         (subst (asm) null_fill.simps, auto split: if_splits)
  qed
  from this [OF 2(8) [symmetric]] have "i + 2 \<le> i1" .
  with 2(1) show ?case by simp
next
  case (3 E md nCol startLine i s b zr c1 s1)
  then show ?case by simp
qed

declare row_fields.simps [simp del]

text \<open>The \<open>do\<close> loop of lines 409 to 412, which reads the fields left in a long row.\<close>

partial_function (option) drain_extras ::
    "env \<Rightarrow> int \<Rightarrow> int \<Rightarrow> loader \<Rightarrow> (fault + (int \<times> loader)) option" where
  "drain_extras E md i s =
     (case xRead md (realloc64 E) False (sCtx s) of
        Inl f \<Rightarrow> Some (Inl f)
      | Inr (zr, c1) \<Rightarrow>
          if cTerm c1 = cColSep c1 then drain_extras E md (i + 1) (s\<lparr>sCtx := c1\<rparr>)
          else Some (Inr (i + 1, s\<lparr>sCtx := c1\<rparr>)))"

declare drain_extras.simps [code]

text \<open>Lines 417 to 424: the INSERT is run when \<open>i>=nCol\<close>.\<close>

definition insert_row :: "env \<Rightarrow> int \<Rightarrow> int \<Rightarrow> int \<Rightarrow> loader \<Rightarrow> loader" where
  "insert_row E nCol startLine i s =
     (if i \<ge> nCol
      then (let r = db E (dbLog s) (Step (binds s));
                s1 = s\<lparr>dbLog := dbLog s @ [Step (binds s)]\<rparr>
            in if rc r \<noteq> 0
               then s1\<lparr>sCtx := say (InsertFailed (zFile (sCtx s1)) startLine (errmsg r))
                                 (sCtx s1)\<rparr>
               else s1)
      else s)"

text \<open>One turn of the \<open>do\<close> loop of lines 384 to 425: one row.\<close>

definition import_row :: "env \<Rightarrow> int \<Rightarrow> int \<Rightarrow> loader \<Rightarrow> (fault + loader) option" where
  "import_row E md nCol s =
     (let startLine = nLine (sCtx s) in
      case row_fields E md nCol startLine 0 s of
        Inl f \<Rightarrow> Some (Inl f)
      | Inr (i, s1) \<Rightarrow>
          if cTerm (sCtx s1) = cColSep (sCtx s1)
          then (case drain_extras E md i s1 of
                  None \<Rightarrow> None
                | Some (Inl f) \<Rightarrow> Some (Inl f)
                | Some (Inr (i2, s2)) \<Rightarrow>
                    Some (Inr (insert_row E nCol startLine i2
                      (s2\<lparr>sCtx := say (LongRow (zFile (sCtx s2)) startLine nCol i2)
                                    (sCtx s2)\<rparr>))))
          else Some (Inr (insert_row E nCol startLine i s1)))"

partial_function (option) import_rows ::
    "env \<Rightarrow> int \<Rightarrow> int \<Rightarrow> loader \<Rightarrow> (fault + loader) option" where
  "import_rows E md nCol s =
     (case import_row E md nCol s of
        None \<Rightarrow> None
      | Some (Inl f) \<Rightarrow> Some (Inl f)
      | Some (Inr s1) \<Rightarrow>
          if cTerm (sCtx s1) \<noteq> EOF then import_rows E md nCol s1 else Some (Inr s1))"

declare import_rows.simps [code]

text \<open>Lines 427 to 432.\<close>

definition import_finish :: "bool \<Rightarrow> loader \<Rightarrow> outcome" where
  "import_finish needCommit s =
     returns 0 False (free_z (sCtx s))
       (if needCommit then dbLog s @ [Exec ''COMMIT''] else dbLog s)"

text \<open>
  The whole function. \<open>None\<close> is a call that does not come back, \<open>Inl\<close> one that ends
  the process, and \<open>Inr\<close> the outcome of a \<open>return\<close>.
\<close>

definition sqlite_import :: "env \<Rightarrow> string \<Rightarrow> string \<Rightarrow> (fault + outcome) option" where
  "sqlite_import E zFile0 zTable =
     (case import_open E zFile0 of
        Inl out \<Rightarrow> Some (Inr out)
      | Inr (p, c0) \<Rightarrow>
          (case import_schema E (mode p) zTable c0 of
             None \<Rightarrow> None
           | Some (Inl f) \<Rightarrow> Some (Inl f)
           | Some (Inr (Inl out)) \<Rightarrow> Some (Inr out)
           | Some (Inr (Inr (nByte, nCol, c1, lg))) \<Rightarrow>
               (case import_insert E zTable nByte nCol c1 lg of
                  Inl out \<Rightarrow> Some (Inr out)
                | Inr (needCommit, s) \<Rightarrow>
                    (case import_rows E (mode p) nCol s of
                       None \<Rightarrow> None
                     | Some (Inl f) \<Rightarrow> Some (Inl f)
                     | Some (Inr s1) \<Rightarrow> Some (Inr (import_finish needCommit s1))))))"


section \<open>Vocabulary of the properties\<close>

text \<open>
  What \<open>sqlite3_realloc64\<close> promises when it succeeds: a buffer of the size asked
  for, which starts with the bytes of the old one.
\<close>

definition realloc_ok :: "realloc \<Rightarrow> bool" where
  "realloc_ok R \<longleftrightarrow>
     (\<forall>zo k b. R zo k = Some b \<longrightarrow>
        int (length b) = k
        \<and> (case zo of None \<Rightarrow> True | Some old \<Rightarrow> take (length old) b = take (length b) old))"

text \<open>
  A context whose buffer and \<open>nAlloc\<close> agree: no buffer and \<open>nAlloc = 0\<close>, or a
  buffer of \<open>nAlloc > 0\<close> bytes.
\<close>

definition ctx_wf :: "ImportCtx \<Rightarrow> bool" where
  "ctx_wf p \<longleftrightarrow>
     (case z p of
        None \<Rightarrow> nAlloc p = 0
      | Some b \<Rightarrow> int (length b) = nAlloc p \<and> 0 < nAlloc p)"

text \<open>The same with \<open>n\<close> inside the buffer, one byte left for the NUL.\<close>

definition buf_inv :: "ImportCtx \<Rightarrow> bool" where
  "buf_inv p \<longleftrightarrow>
     ctx_wf p \<and> 0 \<le> n p \<and> (case z p of None \<Rightarrow> n p = 0 | Some b \<Rightarrow> n p < nAlloc p)"

text \<open>A double quote is among the first \<open>n\<close> bytes of the buffer.\<close>

definition has_quote :: "ImportCtx \<Rightarrow> bool" where
  "has_quote p \<longleftrightarrow>
     (case z p of None \<Rightarrow> False | Some b \<Rightarrow> CHR 0x22 \<in> set (take (nat (n p)) b))"

text \<open>The file name and the two separators are the same in both contexts.\<close>

definition same_cfg :: "ImportCtx \<Rightarrow> ImportCtx \<Rightarrow> bool" where
  "same_cfg p q \<longleftrightarrow> zFile q = zFile p \<and> cColSep q = cColSep p \<and> cRowSep q = cRowSep p"

text \<open>
  A message of the field reader about file \<open>F\<close>, with a line number of at least
  \<open>L\<close>.
\<close>

definition tok_diag :: "string \<Rightarrow> int \<Rightarrow> diag \<Rightarrow> bool" where
  "tok_diag F L d =
     (case d of
        UnescapedQuote f l \<Rightarrow> f = F \<and> L \<le> l
      | UnterminatedQuote f l \<Rightarrow> f = F \<and> L \<le> l
      | _ \<Rightarrow> False)"

text \<open>
  What reading does to a context: the file name and separators stay, the stream only
  gets shorter, the line number only grows, \<open>stderr\<close> only gets messages of the
  reader, and a buffer never becomes the null pointer again.
\<close>

definition tok_step :: "int \<Rightarrow> ImportCtx \<Rightarrow> ImportCtx \<Rightarrow> bool" where
  "tok_step L p q \<longleftrightarrow>
     same_cfg p q \<and> length (inp q) \<le> length (inp p) \<and> nLine p \<le> nLine q
     \<and> (\<exists>new. err q = err p @ new \<and> list_all (tok_diag (zFile p) L) new)
     \<and> (z q = None \<longrightarrow> z p = None)"

text \<open>
  The invariant of the quoted loop: when \<open>pc\<close> or \<open>ppc\<close> is the quote, a quote is
  in the buffer, so the loop that steps back to it stays inside the buffer.
\<close>

definition qinv :: "int \<Rightarrow> int \<Rightarrow> ImportCtx \<Rightarrow> bool" where
  "qinv pc ppc p \<longleftrightarrow> buf_inv p \<and> ((pc = cQuote \<or> ppc = cQuote) \<longrightarrow> has_quote p)"

text \<open>
  What a field read leaves behind, from context \<open>p\<close> to \<open>p'\<close> with the returned
  pointer \<open>zr\<close>.
\<close>

definition read_post :: "ImportCtx \<Rightarrow> char list option \<Rightarrow> ImportCtx \<Rightarrow> bool" where
  "read_post p zr p' \<longleftrightarrow>
     buf_inv p' \<and> tok_step (nLine p) p p'
     \<and> (case zr of
          None \<Rightarrow> n p' = 0 \<and> z p' = z p
        | Some b \<Rightarrow> z p' = Some b \<and> b ! nat (n p') = CHR 0x00)
     \<and> (if inp p = [] then zr = None \<and> cTerm p' = EOF
         else length (inp p') < length (inp p))"

text \<open>
  The context of \<open>sqlite_import\<close> after line 321, with the bytes of the input; the
  context after the field \<open>ab\<close> has been read from the input \<open>ab,c\<close>; and the
  context after the field \<open>a\<close> has been read from the input \<open>a\<close>.
\<close>

definition ctx_fresh :: "string \<Rightarrow> ImportCtx" where
  "ctx_fresh bytes =
     \<lparr>zFile = ''data.csv'', inp = bytes, z = Some (CHR 0x00 # replicate 99 (CHR ''#'')), n = 1,
      nAlloc = 100, nLine = 1, cTerm = 0, cColSep = 44, cRowSep = 10, err = []\<rparr>"

definition ctx_ab :: ImportCtx where
  "ctx_ab =
     \<lparr>zFile = ''data.csv'', inp = ''c'',
      z = Some (''ab'' @ CHR 0x00 # replicate 97 (CHR ''#'')), n = 2,
      nAlloc = 100, nLine = 1, cTerm = 44, cColSep = 44, cRowSep = 10, err = []\<rparr>"

definition ctx_stale :: ImportCtx where
  "ctx_stale =
     \<lparr>zFile = ''data.csv'', inp = [], z = Some (''a'' @ CHR 0x00 # replicate 98 (CHR ''#'')), n = 1,
      nAlloc = 100, nLine = 1, cTerm = EOF, cColSep = 44, cRowSep = 10, err = []\<rparr>"

text \<open>An allocator that gives every positive size.\<close>

definition never_fails :: "realloc \<Rightarrow> bool" where
  "never_fails R \<longleftrightarrow> (\<forall>zo k. 0 < k \<longrightarrow> R zo k \<noteq> None)"

text \<open>The field read so far: the first \<open>n\<close> bytes of the buffer.\<close>

definition field :: "ImportCtx \<Rightarrow> string" where
  "field p = (case z p of None \<Rightarrow> [] | Some b \<Rightarrow> take (nat (n p)) b)"

text \<open>The file name, the separators and \<open>stderr\<close> are the same in both contexts.\<close>

definition frame :: "ImportCtx \<Rightarrow> ImportCtx \<Rightarrow> bool" where
  "frame p q \<longleftrightarrow>
     zFile q = zFile p \<and> cColSep q = cColSep p \<and> cRowSep q = cRowSep p \<and> err q = err p"

text \<open>
  A field as it is written in a CSV file: bare, or between quotes with every quote of
  its value doubled.
\<close>

datatype cell = Bare string | Quoted string

definition double_quotes :: "string \<Rightarrow> string" where
  "double_quotes v = concat (map (\<lambda>x. if x = CHR 0x22 then [x, x] else [x]) v)"

fun cell_text :: "cell \<Rightarrow> string" where
  "cell_text (Bare v) = v"
| "cell_text (Quoted v) = [CHR 0x22] @ double_quotes v @ [CHR 0x22]"

fun cell_value :: "cell \<Rightarrow> string" where
  "cell_value (Bare v) = v"
| "cell_value (Quoted v) = v"

text \<open>
  What may follow the closing quote of a quoted field, with the terminator the reader
  stores and the input left after it: the end of the input, the column or the row
  separator, or CR and the row separator.
\<close>

definition quoted_end :: "char \<Rightarrow> char \<Rightarrow> string \<Rightarrow> (int \<times> string) option" where
  "quoted_end sep rsep tail =
     (case tail of
        [] \<Rightarrow> Some (EOF, [])
      | t # r \<Rightarrow>
          if t = sep \<or> t = rsep then Some (of_char t, r)
          else if t = CHR 0x0D
          then (case r of
                  [] \<Rightarrow> None
                | t2 # r2 \<Rightarrow> if t2 = rsep then Some (of_char rsep, r2) else None)
          else None)"

text \<open>
  The result \<open>r\<close> of a read is the buffer of context \<open>q\<close>, which holds \<open>v\<close> and then
  a NUL.
\<close>

definition yields :: "fault + (char list option \<times> ImportCtx) \<Rightarrow> string \<Rightarrow> ImportCtx \<Rightarrow> bool" where
  "yields r v q \<longleftrightarrow>
     (case z q of
        None \<Rightarrow> False
      | Some b \<Rightarrow>
          r = Inr (Some b, q) \<and> take (nat (n q)) b = v \<and> 0 \<le> n q \<and> nat (n q) < length b
          \<and> b ! nat (n q) = CHR 0x00)"

text \<open>Line 196: a CR at the end of a field that the row separator ends is dropped.\<close>

definition strip_cr :: "char \<Rightarrow> char \<Rightarrow> string \<Rightarrow> string" where
  "strip_cr t rsep f = (if t = rsep \<and> f \<noteq> [] \<and> last f = CHR 0x0D then butlast f else f)"

text \<open>
  A bare field has neither separator in it and does not start with a quote. A row is
  one field or more, the column separator between them, and at the end the row
  separator alone or after a CR; with the row separator alone, a bare last field does
  not end with a CR of its own.
\<close>

definition bare_ok :: "char \<Rightarrow> char \<Rightarrow> string \<Rightarrow> bool" where
  "bare_ok sep rsep v \<longleftrightarrow> sep \<notin> set v \<and> rsep \<notin> set v \<and> (v = [] \<or> hd v \<noteq> CHR 0x22)"

fun cell_ok :: "char \<Rightarrow> char \<Rightarrow> cell \<Rightarrow> bool" where
  "cell_ok sep rsep (Bare v) = bare_ok sep rsep v"
| "cell_ok sep rsep (Quoted v) = True"

fun no_final_cr :: "cell \<Rightarrow> bool" where
  "no_final_cr (Bare v) = (v = [] \<or> last v \<noteq> CHR 0x0D)"
| "no_final_cr (Quoted v) = True"

definition eol_ok :: "char \<Rightarrow> char \<Rightarrow> string \<Rightarrow> bool" where
  "eol_ok sep rsep eol \<longleftrightarrow>
     eol = [rsep] \<or> (eol = [CHR 0x0D, rsep] \<and> sep \<noteq> CHR 0x0D \<and> rsep \<noteq> CHR 0x0D)"

fun row_text :: "char \<Rightarrow> string \<Rightarrow> cell list \<Rightarrow> string" where
  "row_text sep eol [] = eol"
| "row_text sep eol [c] = cell_text c @ eol"
| "row_text sep eol (c # d # cs) = cell_text c @ sep # row_text sep eol (d # cs)"

definition row_ok :: "char \<Rightarrow> char \<Rightarrow> string \<Rightarrow> cell list \<Rightarrow> bool" where
  "row_ok sep rsep eol cells \<longleftrightarrow>
     cells \<noteq> [] \<and> list_all (cell_ok sep rsep) cells \<and> eol_ok sep rsep eol
     \<and> (eol = [rsep] \<longrightarrow> no_final_cr (last cells))"

text \<open>
  \<open>k\<close> calls of \<open>csv_read_one_field\<close> in a row: the returned pointers with the
  contexts after each call. \<open>returned\<close> is the field a call returned, the first \<open>n\<close>
  bytes of the buffer.
\<close>

fun read_fields ::
    "realloc \<Rightarrow> nat \<Rightarrow> ImportCtx \<Rightarrow> fault + ((char list option \<times> ImportCtx) list)" where
  "read_fields R 0 p = Inr []"
| "read_fields R (Suc k) p =
     (case csv_read_one_field R False p of
        Inl f \<Rightarrow> Inl f
      | Inr (zr, q) \<Rightarrow>
          (case read_fields R k q of
             Inl f \<Rightarrow> Inl f
           | Inr rs \<Rightarrow> Inr ((zr, q) # rs)))"

definition returned :: "char list option \<times> ImportCtx \<Rightarrow> string option" where
  "returned r = (case r of (zr, q) \<Rightarrow> map_option (take (nat (n q))) zr)"

definition nul_terminated :: "char list option \<times> ImportCtx \<Rightarrow> bool" where
  "nul_terminated r =
     (case r of
        (None, q) \<Rightarrow> False
      | (Some b, q) \<Rightarrow> 0 \<le> n q \<and> nat (n q) < length b \<and> b ! nat (n q) = CHR 0x00)"

text \<open>
  The quoted field of the specification, and a row of three fields followed by CRLF and
  the start of the next row.
\<close>

definition quoted_example :: string where
  "quoted_example = [CHR 0x22] @ ''a,b'' @ [CHR 0x0A] @ ''c'' @ [CHR 0x22, CHR 0x22] @ ''d''
                      @ [CHR 0x22]"

definition row_example :: string where
  "row_example = ''1,'' @ [CHR 0x22] @ ''a,b'' @ [CHR 0x22, CHR 0x22, CHR 0x22] @ '',x y''
                   @ [CHR 0x0D, CHR 0x0A] @ ''2,''"

text \<open>
  The loader goes on to the next column after a read when the reader stored the column
  separator as the terminator.
\<close>

definition goes_on :: "char list option \<times> ImportCtx \<Rightarrow> bool" where
  "goes_on r \<longleftrightarrow> cTerm (snd r) = cColSep (snd r)"

text \<open>The value \<open>sqlite3_bind_text\<close> binds for a read: NULL or the C string returned.\<close>

definition bound :: "char list option \<times> ImportCtx \<Rightarrow> string option" where
  "bound r = map_option c_str (fst r)"

text \<open>The context after a list of reads that started in \<open>p\<close>.\<close>

definition last_ctx :: "ImportCtx \<Rightarrow> (char list option \<times> ImportCtx) list \<Rightarrow> ImportCtx" where
  "last_ctx p rs = (if rs = [] then p else snd (last rs))"

text \<open>Binding the results of a list of reads to the columns after column \<open>i\<close>.\<close>

fun bind_all :: "int \<Rightarrow> (char list option \<times> ImportCtx) list \<Rightarrow> loader \<Rightarrow> loader" where
  "bind_all i [] s = s"
| "bind_all i (r # rs) s = bind_all (i + 1) rs (sqlite3_bind_text (i + 1) (fst r) (s\<lparr>sCtx := snd r\<rparr>))"

text \<open>The loader at the start of the row loop for a table of four and of three columns.\<close>

definition loader_of :: "nat \<Rightarrow> string \<Rightarrow> loader" where
  "loader_of k bytes = \<lparr>sCtx = ctx_fresh bytes, dbLog = [], binds = replicate k None\<rparr>"

text \<open>
  A message about file \<open>F\<close> printed while a row that started on line \<open>L\<close> is loaded:
  a message of the loader carries exactly \<open>L\<close>, a message of the field reader a line
  from \<open>L\<close> on.
\<close>

definition row_diag :: "string \<Rightarrow> int \<Rightarrow> diag \<Rightarrow> bool" where
  "row_diag F L d =
     (case d of
        UnescapedQuote f l \<Rightarrow> f = F \<and> L \<le> l
      | UnterminatedQuote f l \<Rightarrow> f = F \<and> L \<le> l
      | ShortRow f l a b \<Rightarrow> f = F \<and> l = L
      | LongRow f l a b \<Rightarrow> f = F \<and> l = L
      | InsertFailed f l m \<Rightarrow> f = F \<and> l = L
      | _ \<Rightarrow> False)"

text \<open>What loading does to the reader context, for a row that started on line \<open>L\<close>.\<close>

definition row_step :: "int \<Rightarrow> ImportCtx \<Rightarrow> ImportCtx \<Rightarrow> bool" where
  "row_step L p q \<longleftrightarrow>
     ctx_wf q \<and> same_cfg p q \<and> length (inp q) \<le> length (inp p) \<and> nLine p \<le> nLine q
     \<and> (\<exists>new. err q = err p @ new \<and> list_all (row_diag (zFile p) L) new)"


text \<open>
  A row whose first field is quoted, goes over a line break and has a quote that is
  neither doubled nor followed by a separator; and a row whose first field is quoted
  and goes over a line break and whose second field is quoted and never closed.
\<close>

definition stray_quote_example :: string where
  "stray_quote_example =
     [CHR 0x22] @ ''a'' @ [CHR 0x0A, CHR 0x22] @ ''b'' @ [CHR 0x22] @ '',x'' @ [CHR 0x0A]"

definition open_quote_example :: string where
  "open_quote_example =
     [CHR 0x22] @ ''a'' @ [CHR 0x0A] @ ''b'' @ [CHR 0x22] @ '','' @ [CHR 0x22] @ ''c''"

text \<open>The lines a row adds to \<open>stderr\<close>, when loading it comes back.\<close>

definition row_stderr :: "(fault + loader) option \<Rightarrow> diag list" where
  "row_stderr r = (case r of Some (Inr s') \<Rightarrow> err (sCtx s') | _ \<Rightarrow> [])"

text \<open>
  A message of the field reader about file \<open>F\<close>, for a read that started on line \<open>sl\<close>:
  an unescaped quote with a line from \<open>a\<close> to \<open>b\<close>, or an unterminated field with the
  line \<open>sl\<close>.
\<close>

definition reader_diag :: "string \<Rightarrow> int \<Rightarrow> int \<Rightarrow> int \<Rightarrow> diag \<Rightarrow> bool" where
  "reader_diag F sl a b d =
     (case d of
        UnescapedQuote f l \<Rightarrow> f = F \<and> a \<le> l \<and> l \<le> b
      | UnterminatedQuote f l \<Rightarrow> f = F \<and> l = sl
      | _ \<Rightarrow> False)"

text \<open>What a part of a read that started on line \<open>sl\<close> adds to \<open>stderr\<close>.\<close>

definition reader_step :: "int \<Rightarrow> ImportCtx \<Rightarrow> ImportCtx \<Rightarrow> bool" where
  "reader_step sl p q \<longleftrightarrow>
     zFile q = zFile p \<and> nLine p \<le> nLine q
     \<and> (\<exists>new. err q = err p @ new
              \<and> list_all (reader_diag (zFile p) sl (nLine p) (nLine q)) new)"

text \<open>The read returned a field and not the null pointer.\<close>

definition is_field :: "char list option \<times> ImportCtx \<Rightarrow> bool" where
  "is_field r \<longleftrightarrow> fst r \<noteq> None"

text \<open>
  A quoted field that goes over two line breaks, has a quote that is neither doubled nor
  followed by a separator on its second line, and is never closed.
\<close>

definition open_field_example :: string where
  "open_field_example =
     [CHR 0x22] @ ''a'' @ [CHR 0x0A, CHR 0x22] @ ''b'' @ [CHR 0x0A] @ ''c''"

text \<open>A message of the field reader, not of the loader.\<close>

definition from_reader :: "diag \<Rightarrow> bool" where
  "from_reader d =
     (case d of UnescapedQuote f l \<Rightarrow> True | UnterminatedQuote f l \<Rightarrow> True | _ \<Rightarrow> False)"

section \<open>Concrete inputs\<close>

text \<open>
  An allocator that gives every positive size: it keeps the old bytes and fills the new
  ones with \<open>#\<close>, which stands for the garbage of uninitialised memory.
\<close>

definition realloc_pad :: realloc where
  "realloc_pad zo k =
     (let old = (case zo of None \<Rightarrow> [] | Some b \<Rightarrow> b)
      in if k \<le> 0 then None
         else Some (take (nat k) old @ replicate (nat k - length old) (CHR ''#'')))"

text \<open>A database that accepts every request and whose table has \<open>k\<close> columns.\<close>

definition db_cols :: "nat \<Rightarrow> sqlite3" where
  "db_cols k lg req = \<lparr>rc = 0, errmsg = [], ncol = k\<rparr>"

text \<open>A database that refuses to prepare any statement, with a syntax error.\<close>

definition db_syntax_error :: sqlite3 where
  "db_syntax_error lg req =
     (case req of
        Prepare q \<Rightarrow> \<lparr>rc = 1, errmsg = ''incomplete input'', ncol = 0\<rparr>
      | _ \<Rightarrow> \<lparr>rc = 0, errmsg = [], ncol = 0\<rparr>)"

text \<open>A database without the table: every SELECT fails with "no such table".\<close>

definition db_no_table :: sqlite3 where
  "db_no_table lg req =
     (case req of
        Prepare q \<Rightarrow> \<lparr>rc = 1, errmsg = ''no such table: t'', ncol = 0\<rparr>
      | _ \<Rightarrow> \<lparr>rc = 0, errmsg = [], ncol = 0\<rparr>)"

text \<open>A database whose table has \<open>k\<close> columns and which refuses every INSERT.\<close>

definition db_rejects :: "nat \<Rightarrow> sqlite3" where
  "db_rejects k lg req =
     (case req of
        Step vs \<Rightarrow> \<lparr>rc = 19, errmsg = ''constraint failed'', ncol = 0\<rparr>
      | _ \<Rightarrow> \<lparr>rc = 0, errmsg = [], ncol = k\<rparr>)"

text \<open>The environment with a database and one readable file of the given bytes.\<close>

definition env_of :: "sqlite3 \<Rightarrow> string \<Rightarrow> env" where
  "env_of d bytes =
     \<lparr>db = d, fopen = (\<lambda>f. Some bytes), popen = (\<lambda>f. None),
      realloc64 = realloc_pad, malloc_ok = (\<lambda>k. True)\<rparr>"

section \<open>Properties\<close>

subsection \<open>The separators and the mode\<close>

lemma strlen30_small:
  "length s < 2 ^ 30 \<Longrightarrow> strlen30 s = int (length s)"
proof -
  assume a: "length s < 2 ^ 30"
  have "strlen30 s = take_bit 30 (int (length s))"
    by (simp add: strlen30_def take_bit_eq_mask mask_eq_exp_minus_1 and.commute)
  also have "\<dots> = int (length s)"
    using a by (simp add: take_bit_int_eq_self)
  finally show ?thesis .
qed

lemma import_separators_init:
  "import_separators shell_init =
     Inr \<lparr>mode = MODE_Csv, colSeparator = SEP_Comma, rowSeparator = SEP_Row\<rparr>"
  by (simp add: import_separators_def shell_init_def sqlite3_snprintf_def SEP_Comma_def
      SEP_CrLf_def SEP_Row_def strlen30_small Let_def)

text \<open>
  C10. \<open>sqlite_import\<close> sets the mode to CSV, the column separator to a comma and the
  row separator to CRLF, which the function itself replaces by LF. So the check of
  the separators passes with exactly that state: none of its four error messages is
  produced, every call that does not stop at the check and opens its input reads with
  the comma and LF, the reader chosen for that mode is \<open>csv_read_one_field\<close> and not
  \<open>ascii_read_one_field\<close>, and the mode is not the one the ASCII test of the row
  loop asks for.
\<close>

theorem separators_are_hardcoded:
  "import_separators shell_init =
     Inr \<lparr>mode = MODE_Csv, colSeparator = SEP_Comma, rowSeparator = SEP_Row\<rparr>
   \<and> import_separators shell_init \<notin> Inl ` {ColSepRequired, ColSepMulti, RowSepRequired,
                                           RowSepMulti}
   \<and> import_open E zFile0 =
       (case (if first_char zFile0 = of_char (CHR ''|'')
              then (popen E (tl zFile0), ''<pipe>'')
              else (fopen E zFile0, zFile0)) of
          (None, name) \<Rightarrow>
            Inl \<lparr>status = 1, stderr_out = [CannotOpen zFile0], db_log = [],
                 stream_open = False, buffer_live = False\<rparr>
        | (Some bytes, name) \<Rightarrow>
            Inr (\<lparr>mode = MODE_Csv, colSeparator = SEP_Comma, rowSeparator = SEP_Row\<rparr>,
                 \<lparr>zFile = name, inp = bytes, z = None, n = 0, nAlloc = 0, nLine = 1,
                  cTerm = 0, cColSep = of_char (CHR '',''), cRowSep = of_char (CHR 0x0A),
                  err = []\<rparr>))
   \<and> xRead MODE_Csv = csv_read_one_field
   \<and> MODE_Csv \<noteq> MODE_Ascii"
  by (auto simp: import_separators_init import_open_def first_char_def SEP_Comma_def
      SEP_Row_def xRead_def MODE_Csv_def MODE_Ascii_def split: option.splits)


subsection \<open>The exits of sqlite_import before the row loop\<close>

lemma import_open_stream:
  "import_open E zFile0 =
     (case (if first_char zFile0 = of_char (CHR ''|'')
            then (popen E (tl zFile0), ''<pipe>'')
            else (fopen E zFile0, zFile0)) of
        (None, name) \<Rightarrow>
          Inl \<lparr>status = 1, stderr_out = [CannotOpen zFile0], db_log = [],
               stream_open = False, buffer_live = False\<rparr>
      | (Some bytes, name) \<Rightarrow>
          Inr (\<lparr>mode = MODE_Csv, colSeparator = SEP_Comma, rowSeparator = SEP_Row\<rparr>,
               \<lparr>zFile = name, inp = bytes, z = None, n = 0, nAlloc = 0, nLine = 1,
                cTerm = 0, cColSep = 44, cRowSep = 10, err = []\<rparr>))"
  by (auto simp: import_separators_init import_open_def first_char_def SEP_Comma_def
      SEP_Row_def split: option.splits)

lemma char_of_0: "char_of (0::int) = CHR 0x00"
  by (simp add: char_of_def)

text \<open>
  C8. The input opens and is empty, the SELECT and the first allocation of the buffer
  get their memory, and preparing the SELECT fails with "no such table". Then
  \<open>sqlite_import\<close> returns 1 after the message "empty file"; the only request the
  database has received is that SELECT, so no table has been created, and the stream
  is closed and the buffer freed.
\<close>

theorem empty_file_creates_no_table:
  assumes stream:
      "(if first_char zFile0 = of_char (CHR ''|'') then popen E (tl zFile0)
        else fopen E zFile0) = Some []"
    and sql: "malloc_ok E (int (length (''SELECT * FROM '' @ zTable)) + 1)"
    and buf: "realloc64 E None 100 = Some b" "b \<noteq> []"
    and fails: "rc (db E [] (Prepare (''SELECT * FROM '' @ zTable))) \<noteq> 0"
    and missing: "no_such_table (errmsg (db E [] (Prepare (''SELECT * FROM '' @ zTable))))"
  shows "sqlite_import E zFile0 zTable =
           Some (Inr \<lparr>status = 1,
                      stderr_out = [EmptyFile (if first_char zFile0 = of_char (CHR ''|'')
                                               then ''<pipe>'' else zFile0)],
                      db_log = [Prepare (''SELECT * FROM '' @ zTable)],
                      stream_open = False, buffer_live = False\<rparr>)"
proof -
  define name where
    "name = (if first_char zFile0 = of_char (CHR ''|'') then ''<pipe>'' else zFile0)"
  define c0 where
    "c0 = \<lparr>zFile = name, inp = [], z = None, n = 0, nAlloc = 0, nLine = 1,
           cTerm = 0, cColSep = 44, cRowSep = 10, err = []\<rparr>"
  have opened: "import_open E zFile0 =
      Inr (\<lparr>mode = MODE_Csv, colSeparator = SEP_Comma, rowSeparator = SEP_Row\<rparr>, c0)"
    using stream by (simp add: import_open_stream c0_def name_def split: if_splits)
  define c1 where "c1 = c0\<lparr>nAlloc := 100, z := Some (b[0 := CHR 0x00]), n := 1\<rparr>"
  have app: "import_append_char (realloc64 E) c0 0 = Inr c1"
    using buf by (simp add: import_append_char_def c0_def c1_def Let_def char_of_0)
  have hdr: "read_header (realloc64 E) MODE_Csv (''CREATE TABLE '' @ zTable) (CHR ''('') c1
              = Some (Inr (''CREATE TABLE '' @ zTable, CHR ''('', c1\<lparr>n := 0, cTerm := EOF\<rparr>))"
    by (subst read_header.simps)
       (simp add: xRead_def MODE_Csv_def MODE_Ascii_def csv_read_one_field_def fgetc_def
          c1_def c0_def)
  have "import_schema E MODE_Csv zTable c0 =
          Some (Inr (Inl (returns 1 False
             (say (EmptyFile (zFile c1)) (free_z (c1\<lparr>n := 0, cTerm := EOF\<rparr>)))
             [Prepare (''SELECT * FROM '' @ zTable)])))"
    using sql fails missing app hdr by (simp add: import_schema_def Let_def)
  then show ?thesis
    by (simp add: sqlite_import_def opened returns_def say_def free_z_def c1_def c0_def
        name_def)
qed

theorem empty_file_creates_no_table_witness:
  "sqlite_import (env_of db_no_table []) ''data.csv'' ''t'' =
     Some (Inr \<lparr>status = 1, stderr_out = [EmptyFile ''data.csv''],
                db_log = [Prepare ''SELECT * FROM t''],
                stream_open = False, buffer_live = False\<rparr>)"
proof -
  have "realloc64 (env_of db_no_table []) None 100 = Some (replicate 100 (CHR ''#''))"
    by (simp add: env_of_def realloc_pad_def)
  from empty_file_creates_no_table [of "''data.csv''" "env_of db_no_table []" "''t''", OF _ _ this]
  show ?thesis
    by (simp add: env_of_def db_no_table_def no_such_table_def first_char_def)
qed

text \<open>
  C7. A call whose input opens and whose SELECT cannot be prepared, for a reason other
  than a missing table (here the empty table name, a syntax error), returns 1 with the
  stream closed but with the field buffer of line 321 still allocated. A call on a
  statement without columns returns 0 with the stream still open and the buffer still
  allocated.
\<close>

theorem prepare_error_leaks_buffer:
  "sqlite_import (env_of db_syntax_error ''1,2'') ''data.csv'' [] =
     Some (Inr \<lparr>status = 1, stderr_out = [SqlError ''incomplete input''],
                db_log = [Prepare ''SELECT * FROM ''],
                stream_open = False, buffer_live = True\<rparr>)
   \<and> sqlite_import (env_of (db_cols 0) ''1,2'') ''data.csv'' ''t'' =
     Some (Inr \<lparr>status = 0, stderr_out = [],
                db_log = [Prepare ''SELECT * FROM t''],
                stream_open = True, buffer_live = True\<rparr>)"
  by code_simp

subsection \<open>The field buffer\<close>

lemma realloc_okD:
  "realloc_ok R \<Longrightarrow> R zo k = Some b \<Longrightarrow> int (length b) = k"
  "realloc_ok R \<Longrightarrow> R (Some old) k = Some b \<Longrightarrow> take (length old) b = take (length b) old"
  unfolding realloc_ok_def by (force, force)

lemma realloc_ok_nth:
  assumes "realloc_ok R" "R (Some old) k = Some b" "j < length old" "j < length b"
  shows "b ! j = old ! j"
proof -
  have "take (length old) b = take (length b) old"
    using assms(1,2) by (rule realloc_okD)
  then have "take (length old) b ! j = take (length b) old ! j" by simp
  with assms(3,4) show ?thesis by simp
qed

lemma import_append_char_safe:
  assumes R: "realloc_ok R" and inv: "buf_inv p"
  shows "import_append_char R p c \<noteq> Inl MemoryFault"
    and "import_append_char R p c = Inr q \<Longrightarrow>
           buf_inv q \<and> n q = n p + 1
           \<and> (\<exists>b'. z q = Some b' \<and> b' ! nat (n p) = char_of c
                 \<and> (\<forall>b j. z p = Some b \<longrightarrow> j < nat (n p) \<longrightarrow> b' ! j = b ! j))
           \<and> q = p\<lparr>z := z q, n := n q, nAlloc := nAlloc q\<rparr>
           \<and> nAlloc q = (if n p + 1 \<ge> nAlloc p then 2 * nAlloc p + 100 else nAlloc p)"
proof -
  show "import_append_char R p c \<noteq> Inl MemoryFault"
  proof (cases "n p + 1 \<ge> nAlloc p")
    case True
    show ?thesis
    proof (cases "R (z p) (nAlloc p + (nAlloc p + 100))")
      case None
      with True show ?thesis by (simp add: import_append_char_def Let_def)
    next
      case (Some b)
      from realloc_okD(1) [OF R Some] have "int (length b) = 2 * nAlloc p + 100" by simp
      moreover from inv have "0 \<le> n p" "0 \<le> nAlloc p" "n p \<le> nAlloc p"
        by (auto simp: buf_inv_def ctx_wf_def split: option.splits)
      ultimately show ?thesis using True Some
        by (simp add: import_append_char_def Let_def)
    qed
  next
    case False
    with inv show ?thesis
      by (auto simp: import_append_char_def Let_def buf_inv_def ctx_wf_def split: option.splits)
  qed
next
  assume a: "import_append_char R p c = Inr q"
  show "buf_inv q \<and> n q = n p + 1
           \<and> (\<exists>b'. z q = Some b' \<and> b' ! nat (n p) = char_of c
                 \<and> (\<forall>b j. z p = Some b \<longrightarrow> j < nat (n p) \<longrightarrow> b' ! j = b ! j))
           \<and> q = p\<lparr>z := z q, n := n q, nAlloc := nAlloc q\<rparr>
           \<and> nAlloc q = (if n p + 1 \<ge> nAlloc p then 2 * nAlloc p + 100 else nAlloc p)"
  proof (cases "n p + 1 \<ge> nAlloc p")
    case True
    then obtain b where Some: "R (z p) (nAlloc p + (nAlloc p + 100)) = Some b"
      using a by (auto simp: import_append_char_def Let_def split: option.splits)
    from realloc_okD(1) [OF R Some] have len: "int (length b) = 2 * nAlloc p + 100" by simp
    from inv have nn: "0 \<le> n p" "0 \<le> nAlloc p" "n p \<le> nAlloc p"
      by (auto simp: buf_inv_def ctx_wf_def split: option.splits)
    have q: "q = p\<lparr>nAlloc := 2 * nAlloc p + 100, z := Some (b[nat (n p) := char_of c]), n := n p + 1\<rparr>"
      using a True Some len nn by (simp add: import_append_char_def Let_def)
    have pres: "\<And>old j. z p = Some old \<Longrightarrow> j < nat (n p) \<Longrightarrow> b ! j = old ! j"
    proof -
      fix old j assume o: "z p = Some old" and j: "j < nat (n p)"
      from inv o have "n p < int (length old)" by (simp add: buf_inv_def ctx_wf_def)
      with j nn len show "b ! j = old ! j"
        using realloc_ok_nth [OF R Some [unfolded o], of j] by simp
    qed
    show ?thesis using True len nn pres
      by (auto simp: q buf_inv_def ctx_wf_def)
  next
    case False
    with inv obtain b where b: "z p = Some b" "int (length b) = nAlloc p" "0 \<le> n p"
      by (auto simp: buf_inv_def ctx_wf_def split: option.splits)
    have q: "q = p\<lparr>z := Some (b[nat (n p) := char_of c]), n := n p + 1\<rparr>"
      using a False b by (simp add: import_append_char_def Let_def)
    show ?thesis using False b
      by (auto simp: q buf_inv_def ctx_wf_def)
  qed
qed

lemma of_char_cQuote: "(of_char x = cQuote) = (x = CHR 0x22)"
  using of_char_eq_iff [of x "CHR 0x22", where ?'a = int] by (simp add: cQuote_def)

lemma of_char_cCR: "(of_char x = cCR) = (x = CHR 0x0D)"
  using of_char_eq_iff [of x "CHR 0x0D", where ?'a = int] by (simp add: cCR_def)

lemma of_char_range: "0 \<le> (of_char x :: int)" "(of_char x :: int) < 256"
proof -
  have "(of_char x :: int) mod 256 = of_char x" by simp
  then show "0 \<le> (of_char x :: int)" "(of_char x :: int) < 256"
    by (metis pos_mod_sign zero_less_numeral, metis pos_mod_bound zero_less_numeral)
qed

lemma of_char_not_EOF: "of_char x \<noteq> EOF" "EOF \<noteq> of_char x"
  using of_char_range(1) [of x] by (auto simp: EOF_def)

lemma strip_quote_sound:
  "buf_inv p \<Longrightarrow> has_quote p \<Longrightarrow>
     \<exists>m. strip_quote p = Inr (p\<lparr>n := m\<rparr>) \<and> 0 \<le> m \<and> m < n p"
proof (induction "nat (n p)" arbitrary: p rule: less_induct)
  case less
  from less.prems obtain b where b: "z p = Some b" "int (length b) = nAlloc p"
     "0 \<le> n p" "n p < nAlloc p" "CHR 0x22 \<in> set (take (nat (n p)) b)"
    by (auto simp: buf_inv_def ctx_wf_def has_quote_def split: option.splits)
  from b(5) have pos: "0 < n p" by (cases "n p \<le> 0") auto
  show ?case
  proof (cases "b ! nat (n p - 1) = CHR 0x22")
    case True
    with b pos have "strip_quote p = Inr (p\<lparr>n := n p - 1\<rparr>)"
      by (subst strip_quote.simps) (simp add: Let_def cQuote_def)
    with pos show ?thesis by force
  next
    case False
    let ?p1 = "p\<lparr>n := n p - 1\<rparr>"
    have step: "strip_quote p = strip_quote ?p1"
      using b pos False by (subst strip_quote.simps) (simp add: Let_def of_char_cQuote)
    have "take (nat (n p)) b = take (nat (n p - 1)) b @ [b ! nat (n p - 1)]"
      using b pos by (simp add: take_Suc_conv_app_nth [symmetric] nat_diff_distrib flip: Suc_nat_eq_nat_zadd1)
    with b(5) False have "CHR 0x22 \<in> set (take (nat (n p - 1)) b)" by auto
    then have hq: "has_quote ?p1" using b by (simp add: has_quote_def)
    have bi: "buf_inv ?p1" using b pos by (simp add: buf_inv_def ctx_wf_def)
    have "nat (n ?p1) < nat (n p)" using pos by simp
    from less.hyps [OF this bi hq] obtain m where
      "strip_quote ?p1 = Inr (?p1\<lparr>n := m\<rparr>)" "0 \<le> m" "m < n ?p1" by blast
    with step show ?thesis by force
  qed
qed

lemma buf_inv_upd [simp]:
  "buf_inv (p\<lparr>inp := a\<rparr>) = buf_inv p"
  "buf_inv (p\<lparr>nLine := b\<rparr>) = buf_inv p"
  "buf_inv (p\<lparr>err := e\<rparr>) = buf_inv p"
  "buf_inv (p\<lparr>cTerm := t\<rparr>) = buf_inv p"
  by (simp_all add: buf_inv_def ctx_wf_def split: option.splits)

lemma has_quote_upd [simp]:
  "has_quote (p\<lparr>inp := a\<rparr>) = has_quote p"
  "has_quote (p\<lparr>nLine := b\<rparr>) = has_quote p"
  "has_quote (p\<lparr>err := e\<rparr>) = has_quote p"
  "has_quote (p\<lparr>cTerm := t\<rparr>) = has_quote p"
  by (simp_all add: has_quote_def split: option.splits)

lemma tok_step_refl: "tok_step L p p"
  by (simp add: tok_step_def same_cfg_def)

lemma tok_step_trans: "tok_step L p q \<Longrightarrow> tok_step L q r \<Longrightarrow> tok_step L p r"
  by (auto simp: tok_step_def same_cfg_def)

lemma append_has_quote:
  assumes R: "realloc_ok R" and inv: "buf_inv p"
    and a: "import_append_char R p c = Inr q"
    and h: "c = cQuote \<or> has_quote p"
  shows "has_quote q"
proof -
  from import_append_char_safe(2) [OF R inv a] obtain b' where
    q: "buf_inv q" "n q = n p + 1" "z q = Some b'" "b' ! nat (n p) = char_of c"
       "\<And>b j. z p = Some b \<Longrightarrow> j < nat (n p) \<Longrightarrow> b' ! j = b ! j"
    by blast
  from inv have np: "0 \<le> n p" by (simp add: buf_inv_def)
  from q(1,2,3) np have len: "nat (n p) < length b'"
    by (auto simp: buf_inv_def ctx_wf_def)
  have tk: "take (nat (n q)) b' = take (nat (n p)) b' @ [b' ! nat (n p)]"
    using len np q(2) by (simp add: take_Suc_conv_app_nth nat_add_distrib)
  from h show ?thesis
  proof
    assume "c = cQuote"
    then have "b' ! nat (n p) = CHR 0x22" using q(4) by (simp add: cQuote_def char_of_def)
    then show ?thesis using q(3) tk by (simp add: has_quote_def)
  next
    assume "has_quote p"
    then obtain b where b: "z p = Some b" "CHR 0x22 \<in> set (take (nat (n p)) b)"
      by (auto simp: has_quote_def split: option.splits)
    from inv b(1) have lb: "nat (n p) < length b" by (auto simp: buf_inv_def ctx_wf_def)
    have "take (nat (n p)) b' = take (nat (n p)) b"
      using q(5) [OF b(1)] len lb by (intro nth_take_lemma) auto
    with b(2) show ?thesis using q(3) tk by (simp add: has_quote_def)
  qed
qed

lemma fgetc_facts:
  assumes "fgetc p = (c, p1)"
  obtains xs where "p1 = p\<lparr>inp := xs\<rparr>"
    and "length xs \<le> length (inp p)"
    and "c \<noteq> EOF \<Longrightarrow> length xs < length (inp p)"
    and "inp p = [] \<Longrightarrow> c = EOF"
    and "inp p \<noteq> [] \<Longrightarrow> c \<noteq> EOF"
proof (cases "inp p")
  case Nil
  with assms have "p1 = p\<lparr>inp := []\<rparr>" "c = EOF" by (auto simp: fgetc_def)
  with Nil that [of "[]"] show ?thesis by simp
next
  case (Cons x xs)
  with assms have "p1 = p\<lparr>inp := xs\<rparr>" "c = of_char x" by (auto simp: fgetc_def)
  with Cons that [of xs] show ?thesis by (simp add: of_char_not_EOF)
qed

lemma csv_quoted_loop_sound:
  assumes R: "realloc_ok R"
  shows "qinv pc ppc p \<Longrightarrow> L \<le> startLine \<Longrightarrow> L \<le> nLine p \<Longrightarrow>
     csv_quoted_loop R startLine pc ppc p \<noteq> Inl MemoryFault \<and>
     (\<forall>p'. csv_quoted_loop R startLine pc ppc p = Inr p' \<longrightarrow> buf_inv p' \<and> tok_step L p p')"
proof (induction "length (inp p)" arbitrary: p pc ppc rule: less_induct)
  case less
  note inv = \<open>qinv pc ppc p\<close>
  obtain c p1 where f: "fgetc p = (c, p1)" by (cases "fgetc p")
  from fgetc_facts [OF f] obtain xs where p1: "p1 = p\<lparr>inp := xs\<rparr>"
    and xs: "length xs \<le> length (inp p)" "c \<noteq> EOF \<Longrightarrow> length xs < length (inp p)"
    by blast
  define p2 where "p2 = (if c = cRowSep p1 then p1\<lparr>nLine := nLine p1 + 1\<rparr> else p1)"
  have bi2: "buf_inv p2" "has_quote p2 = has_quote p" "inp p2 = xs" "L \<le> nLine p2"
    using inv less.prems(3) by (simp_all add: p2_def p1 qinv_def)
  have st2: "tok_step L p p2"
    using xs(1) by (simp add: p2_def p1 tok_step_def same_cfg_def)
  let ?stop = "(c = cColSep p2 \<and> pc = cQuote) \<or> (c = cRowSep p2 \<and> pc = cQuote)
              \<or> (c = cRowSep p2 \<and> pc = cCR \<and> ppc = cQuote) \<or> (c = EOF \<and> pc = cQuote)"
  define p3 where "p3 = (if pc = cQuote \<and> c \<noteq> cCR
                    then p2\<lparr>err := err p2 @ [UnescapedQuote (zFile p2) (nLine p2)]\<rparr>
                    else p2)"
  have unf: "csv_quoted_loop R startLine pc ppc p =
     (if c = cQuote \<and> pc = cQuote then csv_quoted_loop R startLine 0 ppc p2
      else if ?stop
        then (case strip_quote p2 of
                Inl f \<Rightarrow> Inl f
              | Inr p3 \<Rightarrow> Inr (p3\<lparr>cTerm := c\<rparr>))
        else
          if c = EOF
          then Inr (p3\<lparr>err := err p3 @ [UnterminatedQuote (zFile p3) startLine],
                      cTerm := c\<rparr>)
          else (case import_append_char R p3 c of
                  Inl f \<Rightarrow> Inl f
                | Inr p4 \<Rightarrow> csv_quoted_loop R startLine c pc p4))"
    by (subst csv_quoted_loop.simps)
       (simp only: f prod.case Let_def p2_def [symmetric] p3_def [symmetric])
  show ?case
  proof (cases "c = cQuote \<and> pc = cQuote")
    case True
    then have "c \<noteq> EOF" by (simp add: cQuote_def EOF_def)
    then have lt: "length (inp p2) < length (inp p)" using xs(2) bi2(3) by simp
    have "qinv 0 ppc p2" using inv True bi2 by (auto simp: qinv_def)
    from less.hyps [OF lt this less.prems(2) bi2(4)]
    have ih: "csv_quoted_loop R startLine 0 ppc p2 \<noteq> Inl MemoryFault \<and>
      (\<forall>p'. csv_quoted_loop R startLine 0 ppc p2 = Inr p' \<longrightarrow> buf_inv p' \<and> tok_step L p2 p')" .
    have eq: "csv_quoted_loop R startLine pc ppc p = csv_quoted_loop R startLine 0 ppc p2"
      by (subst unf) (insert True, auto)
    show ?thesis unfolding eq using ih st2 by (blast intro: tok_step_trans)
  next
    case nopair: False
    show ?thesis
    proof (cases ?stop)
      case True
      then have "has_quote p2" using inv bi2 by (auto simp: qinv_def)
      from strip_quote_sound [OF bi2(1) this] obtain m where
        m: "strip_quote p2 = Inr (p2\<lparr>n := m\<rparr>)" "0 \<le> m" "m < n p2" by blast
      have "buf_inv (p2\<lparr>n := m\<rparr>)" using bi2(1) m(2,3)
        by (auto simp: buf_inv_def ctx_wf_def split: option.splits)
      moreover have "tok_step L p2 (p2\<lparr>n := m, cTerm := c\<rparr>)"
        by (simp add: tok_step_def same_cfg_def)
      with st2 have "tok_step L p (p2\<lparr>n := m, cTerm := c\<rparr>)" by (rule tok_step_trans)
      moreover have "csv_quoted_loop R startLine pc ppc p = Inr (p2\<lparr>n := m, cTerm := c\<rparr>)"
        by (subst unf) (insert nopair True m(1), auto)
      ultimately show ?thesis by simp
    next
      case nostop: False
      have bi3: "buf_inv p3" "has_quote p3 = has_quote p" "inp p3 = xs" "L \<le> nLine p3"
        using bi2 by (simp_all add: p3_def)
      have "tok_step L p2 p3" using bi2(4)
        by (simp add: p3_def tok_step_def same_cfg_def tok_diag_def)
      with st2 have st3: "tok_step L p p3" by (rule tok_step_trans)
      show ?thesis
      proof (cases "c = EOF")
        case True
        have "tok_step L p3 (p3\<lparr>err := err p3 @ [UnterminatedQuote (zFile p3) startLine],
                      cTerm := c\<rparr>)"
          using less.prems(2) by (simp add: tok_step_def same_cfg_def tok_diag_def)
        with st3 have "tok_step L p (p3\<lparr>err := err p3 @ [UnterminatedQuote (zFile p3) startLine],
                      cTerm := c\<rparr>)" by (rule tok_step_trans)
        moreover have "csv_quoted_loop R startLine pc ppc p =
            Inr (p3\<lparr>err := err p3 @ [UnterminatedQuote (zFile p3) startLine], cTerm := c\<rparr>)"
          by (subst unf) (insert nopair nostop True, auto)
        ultimately show ?thesis using bi3(1) by simp
      next
        case False
        then have lt: "length (inp p3) < length (inp p)" using xs(2) bi3(3) by simp
        show ?thesis
        proof (cases "import_append_char R p3 c")
          case (Inl e)
          have "csv_quoted_loop R startLine pc ppc p = Inl e"
            by (subst unf) (insert nopair nostop False Inl, auto)
          with import_append_char_safe(1) [OF R bi3(1), of c] Inl
          show ?thesis by simp
        next
          case (Inr p4)
          from import_append_char_safe(2) [OF R bi3(1) Inr]
          obtain zz nn na where p4: "buf_inv p4" "p4 = p3\<lparr>z := Some zz, n := nn, nAlloc := na\<rparr>"
            by (metis)
          have i4: "inp p4 = xs" "nLine p4 = nLine p3" using bi3(3) by (simp_all add: p4(2))
          have st4: "tok_step L p3 p4"
            by (simp add: p4(2) tok_step_def same_cfg_def)
          have "c = cQuote \<or> pc = cQuote \<Longrightarrow> has_quote p4"
          proof (rule append_has_quote [OF R bi3(1) Inr])
            assume "c = cQuote \<or> pc = cQuote"
            then show "c = cQuote \<or> has_quote p3" using inv bi3(2) by (auto simp: qinv_def)
          qed
          then have q4: "qinv c pc p4" using p4(1) by (auto simp: qinv_def)
          have lt4: "length (inp p4) < length (inp p)" using lt i4 bi3(3) by simp
          have l4: "L \<le> nLine p4" using i4 bi3(4) by simp
          from less.hyps [OF lt4 q4 less.prems(2) l4]
          have ih: "csv_quoted_loop R startLine c pc p4 \<noteq> Inl MemoryFault \<and>
             (\<forall>p'. csv_quoted_loop R startLine c pc p4 = Inr p' \<longrightarrow> buf_inv p' \<and> tok_step L p4 p')" .
          have "tok_step L p p4" using st3 st4 by (rule tok_step_trans)
          with ih have "csv_quoted_loop R startLine c pc p4 \<noteq> Inl MemoryFault \<and>
             (\<forall>p'. csv_quoted_loop R startLine c pc p4 = Inr p' \<longrightarrow> buf_inv p' \<and> tok_step L p p')"
            by (blast intro: tok_step_trans)
          moreover have "csv_quoted_loop R startLine pc ppc p = csv_quoted_loop R startLine c pc p4"
            by (subst unf) (insert nopair nostop False Inr, auto)
          ultimately show ?thesis by simp
        qed
      qed
    qed
  qed
qed

lemma csv_unquoted_loop_sound:
  assumes R: "realloc_ok R"
  shows "buf_inv p \<Longrightarrow>
     csv_unquoted_loop R c p \<noteq> Inl MemoryFault \<and>
     (\<forall>c' p'. csv_unquoted_loop R c p = Inr (c', p') \<longrightarrow>
        buf_inv p' \<and> tok_step L p p' \<and> nLine p' = nLine p \<and> err p' = err p
        \<and> (z p' = None \<longrightarrow> n p' = n p))"
proof (induction "length (inp p) + (if c = EOF then 0 else 1)" arbitrary: c p rule: less_induct)
  case less
  note inv = \<open>buf_inv p\<close>
  let ?go = "c \<noteq> EOF \<and> c \<noteq> cColSep p \<and> c \<noteq> cRowSep p"
  show ?case
  proof (cases ?go)
    case False
    have "csv_unquoted_loop R c p = Inr (c, p)"
      by (subst csv_unquoted_loop.simps) (insert False, auto)
    with inv show ?thesis by (simp add: tok_step_refl)
  next
    case True
    show ?thesis
    proof (cases "import_append_char R p c")
      case (Inl e)
      have "csv_unquoted_loop R c p = Inl e"
        by (subst csv_unquoted_loop.simps) (insert True Inl, simp)
      with import_append_char_safe(1) [OF R inv, of c] Inl show ?thesis by simp
    next
      case (Inr p1)
      from import_append_char_safe(2) [OF R inv Inr]
      obtain zz nn na where p1: "buf_inv p1" "p1 = p\<lparr>z := Some zz, n := nn, nAlloc := na\<rparr>"
        by metis
      obtain c' p2 where f: "fgetc p1 = (c', p2)" by (cases "fgetc p1")
      from fgetc_facts [OF f] obtain xs where p2: "p2 = p1\<lparr>inp := xs\<rparr>"
        and xs: "length xs \<le> length (inp p1)" "c' \<noteq> EOF \<Longrightarrow> length xs < length (inp p1)"
        by blast
      have eq: "csv_unquoted_loop R c p = csv_unquoted_loop R c' p2"
        by (subst csv_unquoted_loop.simps) (insert True Inr f, simp)
      have bi2: "buf_inv p2" using p1(1) by (simp add: p2)
      have st: "tok_step L p p2" "nLine p2 = nLine p" "err p2 = err p" "z p2 \<noteq> None"
        using xs(1) by (simp_all add: p2 p1(2) tok_step_def same_cfg_def)
      have "length (inp p2) + (if c' = EOF then 0 else 1) < length (inp p) + (if c = EOF then 0 else 1)"
        using True xs by (cases "c' = EOF") (simp_all add: p2 p1(2))
      from less.hyps [OF this bi2]
      have ih: "csv_unquoted_loop R c' p2 \<noteq> Inl MemoryFault \<and>
         (\<forall>c'' p'. csv_unquoted_loop R c' p2 = Inr (c'', p') \<longrightarrow>
            buf_inv p' \<and> tok_step L p2 p' \<and> nLine p' = nLine p2 \<and> err p' = err p2
            \<and> (z p' = None \<longrightarrow> n p' = n p2))" .
      show ?thesis unfolding eq
      proof (rule conjI, goal_cases)
        case 1
        show ?case using ih by simp
      next
        case 2
        show ?case
        proof (intro allI impI)
        fix c'' p' assume "csv_unquoted_loop R c' p2 = Inr (c'', p')"
        with ih have b: "buf_inv p'" "tok_step L p2 p'" "nLine p' = nLine p2" "err p' = err p2"
          by auto
        from b(2) st(4) have "z p' \<noteq> None" by (auto simp: tok_step_def)
        moreover have "tok_step L p p'" using st(1) b(2) by (rule tok_step_trans)
        ultimately show "buf_inv p' \<and> tok_step L p p' \<and> nLine p' = nLine p \<and> err p' = err p
            \<and> (z p' = None \<longrightarrow> n p' = n p)"
          using b st by auto
        qed
      qed
    qed
  qed
qed

lemma csv_unquoted_end_sound:
  assumes inv: "buf_inv p"
  shows "\<exists>p'. csv_unquoted_end c p = Inr p' \<and> buf_inv p' \<and> tok_step L p p'
            \<and> err p' = err p \<and> cTerm p' = c \<and> z p' = z p \<and> (z p = None \<longrightarrow> n p' = n p)"
proof (cases "c = cRowSep p \<and> n p > 0")
  case True
  with inv obtain b where b: "z p = Some b" "int (length b) = nAlloc p" "n p < nAlloc p"
    by (auto simp: buf_inv_def ctx_wf_def split: option.splits)
  show ?thesis
  proof (cases "of_char (b ! nat (n p - 1)) = cCR")
    case cr: True
    have "csv_unquoted_end c p = Inr (p\<lparr>nLine := nLine p + 1, n := n p - 1, cTerm := c\<rparr>)"
      using True b cr by (simp add: csv_unquoted_end_def Let_def)
    moreover have "buf_inv (p\<lparr>nLine := nLine p + 1, n := n p - 1, cTerm := c\<rparr>)"
      using True b by (simp add: buf_inv_def ctx_wf_def)
    ultimately show ?thesis using b by (simp add: tok_step_def same_cfg_def)
  next
    case nocr: False
    have "csv_unquoted_end c p = Inr (p\<lparr>nLine := nLine p + 1, cTerm := c\<rparr>)"
      using True b nocr by (simp add: csv_unquoted_end_def Let_def)
    with inv show ?thesis by (simp add: tok_step_def same_cfg_def)
  qed
next
  case False
  then have "csv_unquoted_end c p =
      Inr (if c = cRowSep p then p\<lparr>nLine := nLine p + 1, cTerm := c\<rparr> else p\<lparr>cTerm := c\<rparr>)"
    by (auto simp: csv_unquoted_end_def Let_def)
  with inv show ?thesis by (simp add: tok_step_def same_cfg_def)
qed

lemma terminate_field_sound:
  assumes inv: "buf_inv p"
  shows "\<exists>zr. terminate_field p = Inr (zr, p\<lparr>z := zr\<rparr>) \<and> buf_inv (p\<lparr>z := zr\<rparr>)
           \<and> (case zr of None \<Rightarrow> z p = None \<and> n p = 0
               | Some b \<Rightarrow> z p \<noteq> None \<and> b ! nat (n p) = CHR 0x00)"
proof (cases "z p")
  case None
  with inv show ?thesis by (simp add: terminate_field_def buf_inv_def ctx_wf_def)
next
  case (Some b)
  with inv have b: "int (length b) = nAlloc p" "0 \<le> n p" "n p < nAlloc p"
    by (auto simp: buf_inv_def ctx_wf_def)
  then have "nat (n p) < length b" by simp
  with Some b show ?thesis
    by (simp add: terminate_field_def Let_def buf_inv_def ctx_wf_def)
qed

lemma csv_read_one_field_sound:
  assumes R: "realloc_ok R" and wf: "ctx_wf p"
  shows "csv_read_one_field R intr p \<noteq> Inl MemoryFault \<and>
         (\<forall>zr p'. csv_read_one_field R intr p = Inr (zr, p') \<longrightarrow> read_post p zr p')"
proof -
  let ?p0 = "p\<lparr>n := 0\<rparr>"
  have bi0: "buf_inv ?p0" using wf by (auto simp: buf_inv_def ctx_wf_def split: option.splits)
  obtain c p1 where f: "fgetc ?p0 = (c, p1)" by (cases "fgetc ?p0")
  from fgetc_facts [OF f] obtain xs where p1: "p1 = ?p0\<lparr>inp := xs\<rparr>"
    and xs: "length xs \<le> length (inp p)" "c \<noteq> EOF \<Longrightarrow> length xs < length (inp p)"
       "inp p = [] \<Longrightarrow> c = EOF" "inp p \<noteq> [] \<Longrightarrow> c \<noteq> EOF"
    by auto
  have bi1: "buf_inv p1" using bi0 by (simp add: p1)
  have st1: "tok_step (nLine p) p p1" using xs(1) by (simp add: p1 tok_step_def same_cfg_def)
  have z1: "z p1 = z p" "n p1 = 0" "nLine p1 = nLine p" "inp p1 = xs" by (simp_all add: p1)
  show ?thesis
  proof (cases "c = EOF \<or> intr")
    case True
    have "csv_read_one_field R intr p = Inr (None, p1\<lparr>cTerm := EOF\<rparr>)"
      using True by (simp add: csv_read_one_field_def f)
    moreover have "read_post p None (p1\<lparr>cTerm := EOF\<rparr>)"
      using bi1 xs True by (auto simp: read_post_def p1 tok_step_def same_cfg_def)
    ultimately show ?thesis by simp
  next
    case False
    then have ne: "inp p \<noteq> []" "length xs < length (inp p)" using xs by auto
    show ?thesis
    proof (cases "c = cQuote")
      case True
      have eq: "csv_read_one_field R intr p =
          (case csv_quoted_loop R (nLine p1) 0 0 p1 of
                Inl f \<Rightarrow> Inl f
              | Inr p2 \<Rightarrow> terminate_field p2)"
        using False True by (simp add: csv_read_one_field_def f)
      have "qinv 0 0 p1" using bi1 by (simp add: qinv_def cQuote_def)
      from csv_quoted_loop_sound [OF R this, of "nLine p" "nLine p1"] z1
      have q: "csv_quoted_loop R (nLine p1) 0 0 p1 \<noteq> Inl MemoryFault"
        "\<And>p2. csv_quoted_loop R (nLine p1) 0 0 p1 = Inr p2 \<Longrightarrow> buf_inv p2 \<and> tok_step (nLine p) p1 p2"
        by auto
      show ?thesis
      proof (cases "csv_quoted_loop R (nLine p1) 0 0 p1")
        case (Inl e)
        with q(1) show ?thesis by (simp add: eq)
      next
        case (Inr p2)
        from q(2) [OF Inr] have p2: "buf_inv p2" "tok_step (nLine p) p1 p2" by auto
        from terminate_field_sound [OF p2(1)] obtain zr where
          zr: "terminate_field p2 = Inr (zr, p2\<lparr>z := zr\<rparr>)" "buf_inv (p2\<lparr>z := zr\<rparr>)"
            "case zr of None \<Rightarrow> z p2 = None \<and> n p2 = 0
               | Some b \<Rightarrow> z p2 \<noteq> None \<and> b ! nat (n p2) = CHR 0x00" by blast
        have "length (inp p2) < length (inp p)"
          using p2(2) ne z1 by (simp add: tok_step_def)
        moreover have "tok_step (nLine p) p p2" using st1 p2(2) by (rule tok_step_trans)
        ultimately have "read_post p zr (p2\<lparr>z := zr\<rparr>)"
          using zr(2,3) ne z1
          by (auto simp: read_post_def tok_step_def same_cfg_def split: option.splits)
        with zr(1) Inr show ?thesis by (simp add: eq)
      qed
    next
      case nq: False
      have eq: "csv_read_one_field R intr p =
          (case csv_unquoted_loop R c p1 of
                Inl f \<Rightarrow> Inl f
              | Inr (c', p2) \<Rightarrow>
                  (case csv_unquoted_end c' p2 of
                     Inl f \<Rightarrow> Inl f
                   | Inr p3 \<Rightarrow> terminate_field p3))"
        using False nq by (simp add: csv_read_one_field_def f)
      note u = csv_unquoted_loop_sound [OF R bi1, of c "nLine p"]
      show ?thesis
      proof (cases "csv_unquoted_loop R c p1")
        case (Inl e)
        with u show ?thesis by (simp add: eq)
      next
        case (Inr r)
        obtain c' p2 where r: "r = (c', p2)" by (cases r)
        from u Inr r have p2: "buf_inv p2" "tok_step (nLine p) p1 p2" by auto
        from csv_unquoted_end_sound [OF p2(1), of c' "nLine p"] obtain p3 where
          p3: "csv_unquoted_end c' p2 = Inr p3" "buf_inv p3" "tok_step (nLine p) p2 p3" by blast
        from terminate_field_sound [OF p3(2)] obtain zr where
          zr: "terminate_field p3 = Inr (zr, p3\<lparr>z := zr\<rparr>)" "buf_inv (p3\<lparr>z := zr\<rparr>)"
            "case zr of None \<Rightarrow> z p3 = None \<and> n p3 = 0
               | Some b \<Rightarrow> z p3 \<noteq> None \<and> b ! nat (n p3) = CHR 0x00" by blast
        have "length (inp p3) < length (inp p)"
          using p2(2) p3(3) ne z1 by (simp add: tok_step_def)
        moreover have "tok_step (nLine p) p p3" using st1 p2(2) p3(3) by (blast intro: tok_step_trans)
        ultimately have "read_post p zr (p3\<lparr>z := zr\<rparr>)"
          using zr(2,3) ne z1
          by (auto simp: read_post_def tok_step_def same_cfg_def split: option.splits)
        with zr(1) Inr r p3(1) show ?thesis by (simp add: eq)
      qed
    qed
  qed
qed

lemma ascii_read_one_field_sound:
  assumes R: "realloc_ok R" and wf: "ctx_wf p"
  shows "ascii_read_one_field R intr p \<noteq> Inl MemoryFault \<and>
         (\<forall>zr p'. ascii_read_one_field R intr p = Inr (zr, p') \<longrightarrow> read_post p zr p')"
proof -
  let ?p0 = "p\<lparr>n := 0\<rparr>"
  have bi0: "buf_inv ?p0" using wf by (auto simp: buf_inv_def ctx_wf_def split: option.splits)
  obtain c p1 where f: "fgetc ?p0 = (c, p1)" by (cases "fgetc ?p0")
  from fgetc_facts [OF f] obtain xs where p1: "p1 = ?p0\<lparr>inp := xs\<rparr>"
    and xs: "length xs \<le> length (inp p)" "c \<noteq> EOF \<Longrightarrow> length xs < length (inp p)"
       "inp p = [] \<Longrightarrow> c = EOF" "inp p \<noteq> [] \<Longrightarrow> c \<noteq> EOF"
    by auto
  have bi1: "buf_inv p1" using bi0 by (simp add: p1)
  have st1: "tok_step (nLine p) p p1" using xs(1) by (simp add: p1 tok_step_def same_cfg_def)
  have z1: "z p1 = z p" "n p1 = 0" "nLine p1 = nLine p" "inp p1 = xs" by (simp_all add: p1)
  show ?thesis
  proof (cases "c = EOF \<or> intr")
    case True
    have "ascii_read_one_field R intr p = Inr (None, p1\<lparr>cTerm := EOF\<rparr>)"
      using True by (simp add: ascii_read_one_field_def f)
    moreover have "read_post p None (p1\<lparr>cTerm := EOF\<rparr>)"
      using bi1 xs True by (auto simp: read_post_def p1 tok_step_def same_cfg_def)
    ultimately show ?thesis by simp
  next
    case False
    then have ne: "inp p \<noteq> []" "length xs < length (inp p)" using xs by auto
    have eq: "ascii_read_one_field R intr p =
        (case csv_unquoted_loop R c p1 of
              Inl f \<Rightarrow> Inl f
            | Inr (c', p2) \<Rightarrow>
                terminate_field
                    ((if c' = cRowSep p2 then p2\<lparr>nLine := nLine p2 + 1\<rparr> else p2)
                       \<lparr>cTerm := c'\<rparr>))"
      using False by (simp add: ascii_read_one_field_def f)
    note u = csv_unquoted_loop_sound [OF R bi1, of c "nLine p"]
    show ?thesis
    proof (cases "csv_unquoted_loop R c p1")
      case (Inl e)
      with u show ?thesis by (simp add: eq)
    next
      case (Inr r)
      obtain c' p2 where r: "r = (c', p2)" by (cases r)
      from u Inr r have p2: "buf_inv p2" "tok_step (nLine p) p1 p2" by auto
      define p3 where "p3 = (if c' = cRowSep p2 then p2\<lparr>nLine := nLine p2 + 1\<rparr> else p2)
                       \<lparr>cTerm := c'\<rparr>"
      have p3: "buf_inv p3" "tok_step (nLine p) p2 p3"
        using p2(1) by (simp_all add: p3_def tok_step_def same_cfg_def)
      from terminate_field_sound [OF p3(1)] obtain zr where
        zr: "terminate_field p3 = Inr (zr, p3\<lparr>z := zr\<rparr>)" "buf_inv (p3\<lparr>z := zr\<rparr>)"
          "case zr of None \<Rightarrow> z p3 = None \<and> n p3 = 0
             | Some b \<Rightarrow> z p3 \<noteq> None \<and> b ! nat (n p3) = CHR 0x00" by blast
      have "length (inp p3) < length (inp p)"
        using p2(2) p3(2) ne z1 by (simp add: tok_step_def)
      moreover have "tok_step (nLine p) p p3" using st1 p2(2) p3(2) by (blast intro: tok_step_trans)
      ultimately have "read_post p zr (p3\<lparr>z := zr\<rparr>)"
        using zr(2,3) ne z1
        by (auto simp: read_post_def tok_step_def same_cfg_def split: option.splits)
      with zr(1) Inr r show ?thesis by (simp add: eq p3_def)
    qed
  qed
qed

lemma realloc_pad_ok: "realloc_ok realloc_pad"
proof -
  have "take (length old) (take k old @ replicate (k - length old) c)
          = take (length (take k old @ replicate (k - length old) c)) old"
    for old :: "char list" and k c
    by (cases "k \<le> length old") (simp_all add: min_def)
  then show ?thesis
    by (auto simp: realloc_ok_def realloc_pad_def Let_def split: option.splits if_splits)
qed

lemma import_append_char_growth:
  "import_append_char R p c = Inr q \<Longrightarrow>
     nAlloc q = (if nAlloc p \<le> n p + 1 then 2 * nAlloc p + 100 else nAlloc p)"
  by (auto simp: import_append_char_def Let_def split: if_splits option.splits)

text \<open>
  C9, as the code has it. With an allocator that keeps its promise and a context whose
  buffer and \<open>nAlloc\<close> agree, neither reader ever touches a byte outside the buffer.
  After a read, \<open>0 \<le> n \<le> nAlloc\<close>; when the read returns a field, the buffer holds a
  NUL at index \<open>n\<close> and \<open>n < nAlloc\<close>; when it returns the null pointer (end of
  input or an interrupt), \<open>n\<close> is 0 and the buffer is as it was, not terminated anew.
  Whenever \<open>import_append_char\<close> grows the buffer, \<open>nAlloc\<close> becomes
  \<open>2 * nAlloc + 100\<close>.
\<close>

theorem field_buffer_invariant:
  assumes "realloc_ok R" and "ctx_wf p"
    and "rd = csv_read_one_field \<or> rd = ascii_read_one_field"
  shows "rd R intr p \<noteq> Inl MemoryFault
       \<and> (\<forall>zr p'. rd R intr p = Inr (zr, p') \<longrightarrow>
            ctx_wf p' \<and> 0 \<le> n p' \<and> n p' \<le> nAlloc p'
            \<and> (case zr of
                 None \<Rightarrow> n p' = 0 \<and> z p' = z p
               | Some b \<Rightarrow> z p' = Some b \<and> n p' < nAlloc p' \<and> b ! nat (n p') = CHR 0x00))
       \<and> (\<forall>c q. import_append_char R p c = Inr q \<longrightarrow>
            nAlloc q = (if nAlloc p \<le> n p + 1 then 2 * nAlloc p + 100 else nAlloc p))"
proof -
  have post: "read_post p zr p' \<Longrightarrow>
      ctx_wf p' \<and> 0 \<le> n p' \<and> n p' \<le> nAlloc p'
            \<and> (case zr of
                 None \<Rightarrow> n p' = 0 \<and> z p' = z p
               | Some b \<Rightarrow> z p' = Some b \<and> n p' < nAlloc p' \<and> b ! nat (n p') = CHR 0x00)"
    for zr p'
    by (auto simp: read_post_def buf_inv_def ctx_wf_def split: option.splits)
  from assms(3) have "rd R intr p \<noteq> Inl MemoryFault \<and>
         (\<forall>zr p'. rd R intr p = Inr (zr, p') \<longrightarrow> read_post p zr p')"
    using csv_read_one_field_sound [OF assms(1,2)] ascii_read_one_field_sound [OF assms(1,2)]
    by blast
  with post show ?thesis
    by (blast intro: import_append_char_growth)
qed

theorem field_buffer_invariant_witness:
  "csv_read_one_field realloc_pad False (ctx_fresh ''ab,c'') = Inr (z ctx_ab, ctx_ab)
   \<and> csv_read_one_field realloc_pad False (ctx_fresh ''ab,c'') \<noteq> Inl MemoryFault
   \<and> ctx_wf ctx_ab \<and> 0 \<le> n ctx_ab \<and> n ctx_ab \<le> nAlloc ctx_ab
   \<and> n ctx_ab < nAlloc ctx_ab \<and> the (z ctx_ab) ! nat (n ctx_ab) = CHR 0x00
   \<and> import_append_char realloc_pad ((ctx_fresh ''ab,c'')\<lparr>n := 99\<rparr>) 0
        = Inr ((ctx_fresh ''ab,c'')
                 \<lparr>z := Some ((replicate 300 (CHR ''#''))[0 := CHR 0x00, 99 := CHR 0x00]),
                  n := 100, nAlloc := 300\<rparr>)"
proof -
  have wf: "ctx_wf (ctx_fresh ''ab,c'')"
    by (simp add: ctx_wf_def ctx_fresh_def)
  have rd: "csv_read_one_field realloc_pad False (ctx_fresh ''ab,c'') = Inr (z ctx_ab, ctx_ab)"
    by code_simp
  have zab: "z ctx_ab = Some (''ab'' @ CHR 0x00 # replicate 97 (CHR ''#''))"
    by (simp add: ctx_ab_def)
  have ap: "import_append_char realloc_pad ((ctx_fresh ''ab,c'')\<lparr>n := 99\<rparr>) 0
        = Inr ((ctx_fresh ''ab,c'')
                 \<lparr>z := Some ((replicate 300 (CHR ''#''))[0 := CHR 0x00, 99 := CHR 0x00]),
                  n := 100, nAlloc := 300\<rparr>)"
    by code_simp
  from field_buffer_invariant [OF realloc_pad_ok wf, of csv_read_one_field False]
  have "csv_read_one_field realloc_pad False (ctx_fresh ''ab,c'') \<noteq> Inl MemoryFault"
    and "ctx_wf ctx_ab \<and> 0 \<le> n ctx_ab \<and> n ctx_ab \<le> nAlloc ctx_ab
          \<and> n ctx_ab < nAlloc ctx_ab \<and> the (z ctx_ab) ! nat (n ctx_ab) = CHR 0x00"
    using rd zab by auto
  with rd ap show ?thesis by simp
qed

text \<open>
  C9 as stated fails on the early return: reading the input \<open>a\<close> leaves the field
  \<open>a\<close> in the buffer, and the next read, at the end of the input, returns the null
  pointer with \<open>n = 0\<close> and the byte \<open>a\<close>, not a NUL, at index \<open>n\<close>.
\<close>

theorem early_return_leaves_stale_byte:
  "csv_read_one_field realloc_pad False (ctx_fresh ''a'')
     = Inr (z ctx_stale, ctx_stale)
   \<and> csv_read_one_field realloc_pad False ctx_stale = Inr (None, ctx_stale\<lparr>n := 0\<rparr>)
   \<and> the (z (ctx_stale\<lparr>n := 0\<rparr>)) ! nat (n (ctx_stale\<lparr>n := 0\<rparr>)) = CHR ''a''"
  by code_simp

subsection \<open>The values of the fields\<close>

lemma realloc_pad_never_fails: "never_fails realloc_pad"
  by (simp add: never_fails_def realloc_pad_def Let_def)

lemma field_upd [simp]:
  "field (p\<lparr>inp := a\<rparr>) = field p"
  "field (p\<lparr>nLine := b\<rparr>) = field p"
  "field (p\<lparr>err := e\<rparr>) = field p"
  "field (p\<lparr>cTerm := t\<rparr>) = field p"
  by (simp_all add: field_def split: option.splits)

lemma length_field: "buf_inv p \<Longrightarrow> int (length (field p)) = n p"
  by (auto simp: buf_inv_def ctx_wf_def field_def split: option.splits)

lemma field_snoc_buffer: "field p = w @ [x] \<Longrightarrow> z p \<noteq> None"
  by (cases "z p") (simp_all add: field_def)

lemma field_cons_buffer: "field p = x # w \<Longrightarrow> z p \<noteq> None"
  by (cases "z p") (simp_all add: field_def)

lemma append_ok:
  assumes R: "realloc_ok R" and NF: "never_fails R" and inv: "buf_inv p"
  shows "\<exists>q. import_append_char R p (of_char x) = Inr q \<and> buf_inv q
    \<and> field q = field p @ [x] \<and> frame p q \<and> inp q = inp p \<and> nLine q = nLine p
    \<and> cTerm q = cTerm p"
proof -
  define c :: int where "c = of_char x"
  from inv have nn: "0 \<le> nAlloc p" "0 \<le> n p" "n p \<le> nAlloc p"
    by (auto simp: buf_inv_def ctx_wf_def split: option.splits)
  have "\<exists>q. import_append_char R p c = Inr q"
  proof (cases "nAlloc p \<le> n p + 1")
    case True
    have "0 < nAlloc p + (nAlloc p + 100)" using nn by simp
    with NF have "R (z p) (nAlloc p + (nAlloc p + 100)) \<noteq> None"
      unfolding never_fails_def by blast
    then obtain b where b: "R (z p) (nAlloc p + (nAlloc p + 100)) = Some b" by blast
    from realloc_okD(1) [OF R b] nn True b show ?thesis
      by (auto simp: import_append_char_def Let_def)
  next
    case False
    with inv show ?thesis
      by (auto simp: import_append_char_def Let_def buf_inv_def ctx_wf_def split: option.splits)
  qed
  then obtain q where q: "import_append_char R p c = Inr q" ..
  from import_append_char_safe(2) [OF R inv q] obtain b' where
    s: "buf_inv q" "n q = n p + 1" "z q = Some b'" "b' ! nat (n p) = char_of c"
       "\<And>b j. z p = Some b \<Longrightarrow> j < nat (n p) \<Longrightarrow> b' ! j = b ! j"
       "q = p\<lparr>z := z q, n := n q, nAlloc := nAlloc q\<rparr>"
    by blast
  from s(1,2,3) nn have len: "nat (n p) < length b'"
    by (auto simp: buf_inv_def ctx_wf_def)
  have tk: "take (nat (n q)) b' = take (nat (n p)) b' @ [b' ! nat (n p)]"
    using len nn s(2) by (simp add: take_Suc_conv_app_nth nat_add_distrib)
  have pre: "take (nat (n p)) b' = field p"
  proof (cases "z p")
    case None
    with inv show ?thesis by (simp add: buf_inv_def field_def)
  next
    case (Some b)
    with inv have "nat (n p) < length b" by (auto simp: buf_inv_def ctx_wf_def)
    then have "take (nat (n p)) b' = take (nat (n p)) b"
      using s(5) [OF Some] len by (intro nth_take_lemma) auto
    with Some show ?thesis by (simp add: field_def)
  qed
  have f: "field q = field p @ [x]"
    using tk pre s(3,4) by (simp add: field_def c_def)
  have fr: "frame p q" "inp q = inp p" "nLine q = nLine p" "cTerm q = cTerm p"
    by (subst s(6), simp add: frame_def)+
  from q s(1) f fr show ?thesis unfolding c_def by blast
qed

lemma strip_one:
  assumes inv: "buf_inv p" and f: "field p = w @ [CHR 0x22]"
  shows "strip_quote p = Inr (p\<lparr>n := n p - 1\<rparr>)"
    and "buf_inv (p\<lparr>n := n p - 1\<rparr>)" and "field (p\<lparr>n := n p - 1\<rparr>) = w"
proof -
  from length_field [OF inv] f have np: "n p = int (length w) + 1" by simp
  then have npn: "nat (n p) = Suc (length w)" "nat (n p - 1) = length w" by simp_all
  from f obtain b where b: "z p = Some b" "take (Suc (length w)) b = w @ [CHR 0x22]"
    by (auto simp: field_def npn split: option.splits)
  from inv b have lb: "n p < int (length b)" by (auto simp: buf_inv_def ctx_wf_def)
  have "take (Suc (length w)) b ! length w = CHR 0x22" by (simp add: b(2))
  then have q: "b ! length w = CHR 0x22" by simp
  have c1: "\<not> (n p - 1 < 0 \<or> int (length b) \<le> n p - 1)" using lb np by simp
  show "strip_quote p = Inr (p\<lparr>n := n p - 1\<rparr>)"
    using b(1) q c1 by (subst strip_quote.simps) (simp add: Let_def cQuote_def npn)
  show "buf_inv (p\<lparr>n := n p - 1\<rparr>)"
    using inv np by (auto simp: buf_inv_def ctx_wf_def split: option.splits)
  have "take (length w) (take (Suc (length w)) b) = w" by (simp add: b(2))
  then have "take (length w) b = w" by (simp add: min_def)
  then show "field (p\<lparr>n := n p - 1\<rparr>) = w"
    using b(1) by (simp add: field_def npn)
qed

lemma strip_two:
  assumes inv: "buf_inv p" and f: "field p = w @ [CHR 0x22, x]" and x: "x \<noteq> CHR 0x22"
  shows "strip_quote p = Inr (p\<lparr>n := n p - 2\<rparr>)"
    and "buf_inv (p\<lparr>n := n p - 2\<rparr>)" and "field (p\<lparr>n := n p - 2\<rparr>) = w"
proof -
  from length_field [OF inv] f have np: "n p = int (length w) + 2" by simp
  then have npn: "nat (n p) = Suc (Suc (length w))" "nat (n p - 1) = Suc (length w)" by simp_all
  from f obtain b where b: "z p = Some b" "take (Suc (Suc (length w))) b = w @ [CHR 0x22, x]"
    by (auto simp: field_def npn split: option.splits)
  from inv b have lb: "n p < int (length b)" by (auto simp: buf_inv_def ctx_wf_def)
  have "take (Suc (Suc (length w))) b ! Suc (length w) = x"
    by (simp only: b(2)) (simp add: nth_append)
  then have q: "b ! Suc (length w) = x" by simp
  let ?p1 = "p\<lparr>n := n p - 1\<rparr>"
  have c1: "\<not> (n p - 1 < 0 \<or> int (length b) \<le> n p - 1)" using lb np by simp
  have s1: "strip_quote p = strip_quote ?p1"
    using b(1) q x c1
    by (subst strip_quote.simps) (simp add: Let_def of_char_cQuote npn)
  have i1: "buf_inv ?p1" using inv np by (auto simp: buf_inv_def ctx_wf_def split: option.splits)
  have "take (Suc (length w)) (take (Suc (Suc (length w))) b) = w @ [CHR 0x22]"
    by (simp only: b(2)) simp
  then have "take (Suc (length w)) b = w @ [CHR 0x22]" by (simp add: min_def)
  then have f1: "field ?p1 = w @ [CHR 0x22]"
    using b(1) by (simp add: field_def npn)
  from strip_one [OF i1 f1] s1
  show "strip_quote p = Inr (p\<lparr>n := n p - 2\<rparr>)"
    and "buf_inv (p\<lparr>n := n p - 2\<rparr>)" and "field (p\<lparr>n := n p - 2\<rparr>) = w"
    by simp_all
qed

lemma quoted_step_char:
  assumes R: "realloc_ok R" and NF: "never_fails R" and inv: "buf_inv p"
    and cfg: "cRowSep p = of_char rsep" "rsep \<noteq> CHR 0x22"
    and pcs: "pc \<noteq> cQuote" "ppc \<noteq> cQuote"
    and i: "inp p = x # xs"
  obtains p4 where "csv_quoted_loop R L pc ppc p = csv_quoted_loop R L (of_char x) pc p4"
    "buf_inv p4" "field p4 = field p @ [x]" "inp p4 = xs"
    "nLine p4 = nLine p + (if x = rsep then 1 else 0)" "frame p p4"
proof -
  define p2 where "p2 = (if x = rsep then p\<lparr>inp := xs, nLine := nLine p + 1\<rparr> else p\<lparr>inp := xs\<rparr>)"
  have i2: "buf_inv p2" using inv by (simp add: p2_def)
  from append_ok [OF R NF i2, of x] obtain p4 where
    p4: "import_append_char R p2 (of_char x) = Inr p4" "buf_inv p4"
      "field p4 = field p2 @ [x]" "frame p2 p4" "inp p4 = inp p2" "nLine p4 = nLine p2"
    by blast
  have "csv_quoted_loop R L pc ppc p = csv_quoted_loop R L (of_char x) pc p4"
    using pcs p4(1) cfg
    by (subst csv_quoted_loop.simps)
       (auto simp: fgetc_def i Let_def p2_def of_char_not_EOF)
  moreover have "field p4 = field p @ [x]" "inp p4 = xs"
    "nLine p4 = nLine p + (if x = rsep then 1 else 0)" "frame p p4"
    using p4(3-6) by (auto simp: p2_def frame_def)
  ultimately show ?thesis using that p4(2) by blast
qed

lemma quoted_step_pair:
  assumes cfg: "cRowSep p = of_char rsep" "rsep \<noteq> CHR 0x22"
    and i: "inp p = CHR 0x22 # xs"
  shows "csv_quoted_loop R L cQuote ppc p = csv_quoted_loop R L 0 ppc (p\<lparr>inp := xs\<rparr>)"
  using cfg of_char_eq_iff [of rsep "CHR 0x22", where ?'a = int]
  by (subst csv_quoted_loop.simps) (simp add: fgetc_def i Let_def cQuote_def)

lemma quoted_step_stop:
  assumes inv: "buf_inv p"
    and cfg: "cColSep p = of_char sep" "cRowSep p = of_char rsep"
    and f: "field p = w @ [CHR 0x22]"
    and i: "inp p = t # r" and t: "t = sep \<or> t = rsep" "t \<noteq> CHR 0x22"
  obtains q where "csv_quoted_loop R L cQuote ppc p = Inr q" "buf_inv q" "field q = w"
    "inp q = r" "cTerm q = of_char t"
    "nLine q = nLine p + (if t = rsep then 1 else 0)" "frame p q" "z q \<noteq> None"
proof -
  have zp: "z p \<noteq> None" using f by (rule field_snoc_buffer)
  define p2 where "p2 = (if t = rsep then p\<lparr>inp := r, nLine := nLine p + 1\<rparr> else p\<lparr>inp := r\<rparr>)"
  have i2: "buf_inv p2" "field p2 = w @ [CHR 0x22]" using inv f by (simp_all add: p2_def)
  note s = strip_one [OF i2]
  have ne: "of_char t \<noteq> cQuote" using t(2) by (simp add: of_char_cQuote)
  have "csv_quoted_loop R L cQuote ppc p = Inr (p2\<lparr>n := n p2 - 1, cTerm := of_char t\<rparr>)"
    using cfg t(1) ne s(1)
    by (subst csv_quoted_loop.simps) (auto simp: fgetc_def i Let_def p2_def)
  moreover have "buf_inv (p2\<lparr>n := n p2 - 1, cTerm := of_char t\<rparr>)"
    "field (p2\<lparr>n := n p2 - 1, cTerm := of_char t\<rparr>) = w"
    using s(2,3) by simp_all
  moreover have "inp (p2\<lparr>n := n p2 - 1, cTerm := of_char t\<rparr>) = r"
    "cTerm (p2\<lparr>n := n p2 - 1, cTerm := of_char t\<rparr>) = of_char t"
    "nLine (p2\<lparr>n := n p2 - 1, cTerm := of_char t\<rparr>) = nLine p + (if t = rsep then 1 else 0)"
    "frame p (p2\<lparr>n := n p2 - 1, cTerm := of_char t\<rparr>)"
    "z (p2\<lparr>n := n p2 - 1, cTerm := of_char t\<rparr>) \<noteq> None"
    using zp by (simp_all add: p2_def frame_def)
  ultimately show ?thesis using that by blast
qed

lemma quoted_step_eof:
  assumes inv: "buf_inv p"
    and cfg: "cRowSep p = of_char rsep"
    and f: "field p = w @ [CHR 0x22]"
    and i: "inp p = []"
  obtains q where "csv_quoted_loop R L cQuote ppc p = Inr q" "buf_inv q" "field q = w"
    "inp q = []" "cTerm q = EOF" "nLine q = nLine p" "frame p q" "z q \<noteq> None"
proof -
  have zp: "z p \<noteq> None" using f by (rule field_snoc_buffer)
  note s = strip_one [OF inv f]
  have "csv_quoted_loop R L cQuote ppc p = Inr (p\<lparr>n := n p - 1, cTerm := EOF\<rparr>)"
    using s(1) cfg of_char_not_EOF(2) [of rsep]
    by (subst csv_quoted_loop.simps) (simp add: fgetc_def i Let_def cQuote_def EOF_def)
  moreover have "buf_inv (p\<lparr>n := n p - 1, cTerm := EOF\<rparr>)"
    "field (p\<lparr>n := n p - 1, cTerm := EOF\<rparr>) = w"
    using s(2,3) by simp_all
  ultimately show ?thesis using that i zp by (simp add: frame_def)
qed

lemma quoted_step_crlf:
  assumes R: "realloc_ok R" and NF: "never_fails R" and inv: "buf_inv p"
    and cfg: "cColSep p = of_char sep" "cRowSep p = of_char rsep" "rsep \<noteq> CHR 0x22"
       "sep \<noteq> CHR 0x0D" "rsep \<noteq> CHR 0x0D"
    and f: "field p = w @ [CHR 0x22]"
    and i: "inp p = CHR 0x0D # rsep # r"
  obtains q where "csv_quoted_loop R L cQuote ppc p = Inr q" "buf_inv q" "field q = w"
    "inp q = r" "cTerm q = of_char rsep" "nLine q = nLine p + 1" "frame p q" "z q \<noteq> None"
proof -
  let ?p2 = "p\<lparr>inp := rsep # r\<rparr>"
  have i2: "buf_inv ?p2" using inv by simp
  from append_ok [OF R NF i2, of "CHR 0x0D"] obtain p4 where
    p4: "import_append_char R ?p2 13 = Inr p4" "buf_inv p4"
      "field p4 = field ?p2 @ [CHR 0x0D]" "frame ?p2 p4" "inp p4 = inp ?p2" "nLine p4 = nLine ?p2"
    by auto
  have ne: "of_char rsep \<noteq> (13::int)" "of_char sep \<noteq> (13::int)"
    using cfg(4,5) of_char_cCR [of rsep] of_char_cCR [of sep] by (simp_all add: cCR_def)
  have s1: "csv_quoted_loop R L cQuote ppc p = csv_quoted_loop R L cCR cQuote p4"
    using p4(1) cfg(1,2) ne
    by (subst csv_quoted_loop.simps)
       (simp add: fgetc_def i Let_def cQuote_def cCR_def EOF_def)
  let ?p5 = "p4\<lparr>inp := r, nLine := nLine p4 + 1\<rparr>"
  have i4: "inp p4 = rsep # r" using p4(5) by simp
  have c4: "cRowSep p4 = of_char rsep" "cColSep p4 = of_char sep"
    using p4(4) cfg by (simp_all add: frame_def)
  have i5: "buf_inv ?p5" "field ?p5 = w @ [CHR 0x22, CHR 0x0D]"
    using p4(2,3) f by simp_all
  note s = strip_two [OF i5]
  have nq: "of_char rsep \<noteq> cQuote" using cfg(3) by (simp add: of_char_cQuote)
  have s2: "csv_quoted_loop R L cCR cQuote p4 = Inr (?p5\<lparr>n := n ?p5 - 2, cTerm := of_char rsep\<rparr>)"
    using c4 nq s(1)
    by (subst csv_quoted_loop.simps) (simp add: fgetc_def i4 Let_def)
  have "buf_inv (?p5\<lparr>n := n ?p5 - 2, cTerm := of_char rsep\<rparr>)"
    "field (?p5\<lparr>n := n ?p5 - 2, cTerm := of_char rsep\<rparr>) = w"
    using s(2,3) by simp_all
  moreover have "frame p (?p5\<lparr>n := n ?p5 - 2, cTerm := of_char rsep\<rparr>)"
    "nLine (?p5\<lparr>n := n ?p5 - 2, cTerm := of_char rsep\<rparr>) = nLine p + 1"
    using p4(4,6) by (simp_all add: frame_def)
  moreover have "z (?p5\<lparr>n := n ?p5 - 2, cTerm := of_char rsep\<rparr>) \<noteq> None"
    using field_snoc_buffer [OF p4(3)] by simp
  ultimately show ?thesis using that s1 s2 by simp
qed

lemma frame_refl: "frame p p"
  by (simp add: frame_def)

lemma frame_trans: "frame p q \<Longrightarrow> frame q r \<Longrightarrow> frame p r"
  by (simp add: frame_def)

lemma frame_upd [simp]:
  "frame p (q\<lparr>inp := a\<rparr>) = frame p q"
  "frame p (q\<lparr>nLine := b\<rparr>) = frame p q"
  "frame p (q\<lparr>cTerm := t\<rparr>) = frame p q"
  "frame p (q\<lparr>n := k\<rparr>) = frame p q"
  "frame p (q\<lparr>z := zz\<rparr>) = frame p q"
  "frame (p\<lparr>inp := a\<rparr>) q = frame p q"
  "frame (p\<lparr>n := k\<rparr>) q = frame p q"
  by (simp_all add: frame_def)

lemma quoted_scan:
  assumes R: "realloc_ok R" and NF: "never_fails R"
    and dq: "sep \<noteq> CHR 0x22" "rsep \<noteq> CHR 0x22"
    and e: "quoted_end sep rsep tail = Some (tm, rest)"
  shows "buf_inv p \<Longrightarrow> cColSep p = of_char sep \<Longrightarrow> cRowSep p = of_char rsep \<Longrightarrow>
     pc \<noteq> cQuote \<Longrightarrow> ppc \<noteq> cQuote \<Longrightarrow> inp p = double_quotes v @ CHR 0x22 # tail \<Longrightarrow>
     \<exists>q. csv_quoted_loop R L pc ppc p = Inr q \<and> buf_inv q \<and> z q \<noteq> None
        \<and> field q = field p @ v \<and> inp q = rest \<and> cTerm q = tm
        \<and> nLine q = nLine p + int (count_list v rsep) + (if tm = of_char rsep then 1 else 0)
        \<and> frame p q"
proof (induction v arbitrary: p pc ppc)
  case Nil
  then have i: "inp p = CHR 0x22 # tail" by (simp add: double_quotes_def)
  from quoted_step_char [OF R NF Nil(1,3) dq(2) Nil(4,5) i, of L] obtain p4 where
    p4: "csv_quoted_loop R L pc ppc p = csv_quoted_loop R L cQuote pc p4"
      "buf_inv p4" "field p4 = field p @ [CHR 0x22]" "inp p4 = tail"
      "nLine p4 = nLine p" "frame p p4"
    using dq(2) by (auto simp: cQuote_def)
  have c4: "cColSep p4 = of_char sep" "cRowSep p4 = of_char rsep"
    using p4(6) Nil(2,3) by (simp_all add: frame_def)
  show ?case
  proof (cases tail)
    case Nil
    with e have tm: "tm = EOF" "rest = []" by (simp_all add: quoted_end_def)
    from quoted_step_eof [OF p4(2) c4(2) p4(3), of R L pc] p4(4) Nil obtain q where
      "csv_quoted_loop R L cQuote pc p4 = Inr q" "buf_inv q" "field q = field p"
      "inp q = []" "cTerm q = EOF" "nLine q = nLine p4" "frame p4 q" "z q \<noteq> None"
      by auto
    with p4 tm show ?thesis
      by (auto simp: of_char_not_EOF intro: frame_trans)
  next
    case (Cons t r)
    show ?thesis
    proof (cases "t = sep \<or> t = rsep")
      case True
      with e Cons have tm: "tm = of_char t" "rest = r" by (simp_all add: quoted_end_def)
      from True dq have "t \<noteq> CHR 0x22" by auto
      from quoted_step_stop [OF p4(2) c4 p4(3) _ True this, of r R L pc] p4(4) Cons obtain q where
        "csv_quoted_loop R L cQuote pc p4 = Inr q" "buf_inv q" "field q = field p"
        "inp q = r" "cTerm q = of_char t" "nLine q = nLine p4 + (if t = rsep then 1 else 0)"
        "frame p4 q" "z q \<noteq> None"
        by auto
      with p4 tm show ?thesis
        by (auto intro: frame_trans)
    next
      case False
      with e Cons obtain r2 where r: "t = CHR 0x0D" "r = rsep # r2" "tm = of_char rsep" "rest = r2"
        by (auto simp: quoted_end_def split: if_splits list.splits)
      from False r have ne: "sep \<noteq> CHR 0x0D" "rsep \<noteq> CHR 0x0D" by auto
      from quoted_step_crlf [OF R NF p4(2) c4 dq(2) ne p4(3), of r2 L pc] p4(4) Cons r obtain q where
        "csv_quoted_loop R L cQuote pc p4 = Inr q" "buf_inv q" "field q = field p"
        "inp q = r2" "cTerm q = of_char rsep" "nLine q = nLine p4 + 1"
        "frame p4 q" "z q \<noteq> None"
        by auto
      with p4 r show ?thesis
        by (auto intro: frame_trans)
    qed
  qed
next
  case (Cons x v)
  show ?case
  proof (cases "x = CHR 0x22")
    case True
    then have i: "inp p = CHR 0x22 # CHR 0x22 # double_quotes v @ CHR 0x22 # tail"
      using Cons.prems(6) by (simp add: double_quotes_def)
    from quoted_step_char [OF R NF Cons.prems(1,3) dq(2) Cons.prems(4,5) i, of L] obtain p4 where
      p4: "csv_quoted_loop R L pc ppc p = csv_quoted_loop R L cQuote pc p4"
        "buf_inv p4" "field p4 = field p @ [CHR 0x22]"
        "inp p4 = CHR 0x22 # double_quotes v @ CHR 0x22 # tail"
        "nLine p4 = nLine p" "frame p p4"
      using dq(2) by (auto simp: cQuote_def)
    have c4: "cColSep p4 = of_char sep" "cRowSep p4 = of_char rsep"
      using p4(6) Cons.prems(2,3) by (simp_all add: frame_def)
    let ?p5 = "p4\<lparr>inp := double_quotes v @ CHR 0x22 # tail\<rparr>"
    have s5: "csv_quoted_loop R L cQuote pc p4 = csv_quoted_loop R L 0 pc ?p5"
      by (rule quoted_step_pair [OF c4(2) dq(2) p4(4)])
    have "\<exists>q. csv_quoted_loop R L 0 pc ?p5 = Inr q \<and> buf_inv q \<and> z q \<noteq> None
        \<and> field q = field ?p5 @ v \<and> inp q = rest \<and> cTerm q = tm
        \<and> nLine q = nLine ?p5 + int (count_list v rsep) + (if tm = of_char rsep then 1 else 0)
        \<and> frame ?p5 q"
      using p4(2) c4 Cons.prems(4)
      by (intro Cons.IH) (simp_all add: cQuote_def)
    then show ?thesis using p4 s5 True dq(2)
      by (auto intro: frame_trans)
  next
    case False
    then have i: "inp p = x # double_quotes v @ CHR 0x22 # tail"
      using Cons.prems(6) by (simp add: double_quotes_def)
    from quoted_step_char [OF R NF Cons.prems(1,3) dq(2) Cons.prems(4,5) i, of L] obtain p4 where
      p4: "csv_quoted_loop R L pc ppc p = csv_quoted_loop R L (of_char x) pc p4"
        "buf_inv p4" "field p4 = field p @ [x]"
        "inp p4 = double_quotes v @ CHR 0x22 # tail"
        "nLine p4 = nLine p + (if x = rsep then 1 else 0)" "frame p p4"
      by auto
    have c4: "cColSep p4 = of_char sep" "cRowSep p4 = of_char rsep"
      using p4(6) Cons.prems(2,3) by (simp_all add: frame_def)
    have "of_char x \<noteq> cQuote" using False by (simp add: of_char_cQuote)
    from Cons.IH [OF p4(2) c4 this Cons.prems(4) p4(4)]
    show ?thesis using p4
      by (auto intro: frame_trans)
  qed
qed

lemma terminate_field_value:
  assumes inv: "buf_inv p" and zp: "z p \<noteq> None"
  obtains b where "yields (terminate_field p) (field p) (p\<lparr>z := Some b\<rparr>)"
    "ctx_wf (p\<lparr>z := Some b\<rparr>)"
proof -
  from zp obtain b where b: "z p = Some b" by auto
  with inv have l: "int (length b) = nAlloc p" "0 \<le> n p" "n p < nAlloc p"
    by (auto simp: buf_inv_def ctx_wf_def)
  then have "nat (n p) < length b" by simp
  with b l have "yields (terminate_field p) (field p) (p\<lparr>z := Some (b[nat (n p) := CHR 0x00])\<rparr>)"
    "ctx_wf (p\<lparr>z := Some (b[nat (n p) := CHR 0x00])\<rparr>)"
    by (simp_all add: yields_def terminate_field_def Let_def field_def ctx_wf_def)
  then show ?thesis using that by blast
qed

lemma csv_read_quoted:
  assumes R: "realloc_ok R" and NF: "never_fails R" and wf: "ctx_wf p"
    and cfg: "cColSep p = of_char sep" "cRowSep p = of_char rsep"
    and dq: "sep \<noteq> CHR 0x22" "rsep \<noteq> CHR 0x22"
    and e: "quoted_end sep rsep tail = Some (tm, rest)"
    and i: "inp p = CHR 0x22 # double_quotes v @ CHR 0x22 # tail"
  shows "\<exists>q. yields (csv_read_one_field R False p) v q \<and> ctx_wf q \<and> inp q = rest
      \<and> cTerm q = tm
      \<and> nLine q = nLine p + int (count_list v rsep) + (if tm = of_char rsep then 1 else 0)
      \<and> frame p q"
proof -
  let ?p1 = "p\<lparr>n := 0, inp := double_quotes v @ CHR 0x22 # tail\<rparr>"
  have f: "fgetc (p\<lparr>n := 0\<rparr>) = (cQuote, ?p1)"
    by (simp add: fgetc_def i cQuote_def)
  have bi: "buf_inv ?p1" using wf by (auto simp: buf_inv_def ctx_wf_def split: option.splits)
  have f1: "field (p\<lparr>n := 0\<rparr>) = []" by (simp add: field_def split: option.splits)
  from quoted_scan [OF R NF dq e bi, of 0 0 v "nLine ?p1"] cfg obtain q where
    q: "csv_quoted_loop R (nLine ?p1) 0 0 ?p1 = Inr q" "buf_inv q" "z q \<noteq> None"
      "field q = v" "inp q = rest" "cTerm q = tm"
      "nLine q = nLine p + int (count_list v rsep) + (if tm = of_char rsep then 1 else 0)"
      "frame p q"
    by (auto simp: cQuote_def f1)
  from terminate_field_value [OF q(2,3)] obtain b where
    b: "yields (terminate_field q) (field q) (q\<lparr>z := Some b\<rparr>)" "ctx_wf (q\<lparr>z := Some b\<rparr>)"
    by blast
  have "csv_read_one_field R False p = terminate_field q"
    using q(1) by (simp add: csv_read_one_field_def f cQuote_def EOF_def)
  with b q show ?thesis by (intro exI [of _ "q\<lparr>z := Some b\<rparr>"]) simp
qed

lemma bare_scan:
  assumes R: "realloc_ok R" and NF: "never_fails R"
  shows "buf_inv p \<Longrightarrow> cColSep p = of_char sep \<Longrightarrow> cRowSep p = of_char rsep \<Longrightarrow>
     x \<noteq> sep \<Longrightarrow> x \<noteq> rsep \<Longrightarrow> sep \<notin> set f \<Longrightarrow> rsep \<notin> set f \<Longrightarrow>
     inp p = f @ t # r \<Longrightarrow> t = sep \<or> t = rsep \<Longrightarrow>
     \<exists>q. csv_unquoted_loop R (of_char x) p = Inr (of_char t, q) \<and> buf_inv q
        \<and> field q = field p @ x # f \<and> inp q = r \<and> nLine q = nLine p \<and> cTerm q = cTerm p
        \<and> frame p q"
proof (induction f arbitrary: p x)
  case Nil
  from append_ok [OF R NF Nil(1), of x] obtain p1 where
    p1: "import_append_char R p (of_char x) = Inr p1" "buf_inv p1" "field p1 = field p @ [x]"
      "frame p p1" "inp p1 = inp p" "nLine p1 = nLine p" "cTerm p1 = cTerm p"
    by blast
  have c1: "cColSep p1 = of_char sep" "cRowSep p1 = of_char rsep"
    using p1(4) Nil(2,3) by (simp_all add: frame_def)
  have f: "fgetc p1 = (of_char t, p1\<lparr>inp := r\<rparr>)"
    using p1(5) Nil(8) by (simp add: fgetc_def)
  have s1: "csv_unquoted_loop R (of_char x) p = csv_unquoted_loop R (of_char t) (p1\<lparr>inp := r\<rparr>)"
    using Nil(2-5) p1(1) f
    by (subst csv_unquoted_loop.simps) (simp add: of_char_not_EOF)
  have s2: "csv_unquoted_loop R (of_char t) (p1\<lparr>inp := r\<rparr>) = Inr (of_char t, p1\<lparr>inp := r\<rparr>)"
    using c1 Nil(9)
    by (subst csv_unquoted_loop.simps) auto
  show ?case using s1 s2 p1 by (intro exI [of _ "p1\<lparr>inp := r\<rparr>"]) simp
next
  case (Cons y f)
  from append_ok [OF R NF Cons.prems(1), of x] obtain p1 where
    p1: "import_append_char R p (of_char x) = Inr p1" "buf_inv p1" "field p1 = field p @ [x]"
      "frame p p1" "inp p1 = inp p" "nLine p1 = nLine p" "cTerm p1 = cTerm p"
    by blast
  let ?p2 = "p1\<lparr>inp := f @ t # r\<rparr>"
  have c2: "cColSep ?p2 = of_char sep" "cRowSep ?p2 = of_char rsep"
    using p1(4) Cons.prems(2,3) by (simp_all add: frame_def)
  have f: "fgetc p1 = (of_char y, ?p2)"
    using p1(5) Cons.prems(8) by (simp add: fgetc_def)
  have s1: "csv_unquoted_loop R (of_char x) p = csv_unquoted_loop R (of_char y) ?p2"
    using Cons.prems(2-5) p1(1) f
    by (subst csv_unquoted_loop.simps) (simp add: of_char_not_EOF)
  have "\<exists>q. csv_unquoted_loop R (of_char y) ?p2 = Inr (of_char t, q) \<and> buf_inv q
        \<and> field q = field ?p2 @ y # f \<and> inp q = r \<and> nLine q = nLine ?p2 \<and> cTerm q = cTerm ?p2
        \<and> frame ?p2 q"
    using p1(2) c2 Cons.prems(6,7,9) by (intro Cons.IH) auto
  then show ?case using s1 p1 by (auto intro: frame_trans)
qed

lemma csv_read_bare:
  assumes R: "realloc_ok R" and NF: "never_fails R" and wf: "ctx_wf p"
    and cfg: "cColSep p = of_char sep" "cRowSep p = of_char rsep"
    and dq: "sep \<noteq> CHR 0x22" "rsep \<noteq> CHR 0x22"
    and f: "sep \<notin> set f" "rsep \<notin> set f" "f = [] \<or> hd f \<noteq> CHR 0x22"
    and t: "t = sep \<or> t = rsep"
    and i: "inp p = f @ t # r"
    and zp: "z p \<noteq> None"
  shows "\<exists>q. yields (csv_read_one_field R False p) (strip_cr t rsep f) q \<and> ctx_wf q
      \<and> inp q = r \<and> cTerm q = of_char t
      \<and> nLine q = nLine p + (if t = rsep then 1 else 0)
      \<and> frame p q"
proof -
  let ?p0 = "p\<lparr>n := 0\<rparr>"
  have bi0: "buf_inv ?p0" using wf by (auto simp: buf_inv_def ctx_wf_def split: option.splits)
  have f0: "field ?p0 = []" by (simp add: field_def split: option.splits)
  have tq: "of_char t \<noteq> cQuote" using t dq by (auto simp: of_char_cQuote)
  have "\<exists>c p1 q. fgetc ?p0 = (c, p1) \<and> c \<noteq> EOF \<and> c \<noteq> cQuote
          \<and> csv_unquoted_loop R c p1 = Inr (of_char t, q) \<and> buf_inv q
          \<and> field q = f \<and> inp q = r \<and> nLine q = nLine p \<and> frame p q \<and> z q \<noteq> None"
  proof (cases f)
    case Nil
    let ?p1 = "?p0\<lparr>inp := r\<rparr>"
    have "fgetc ?p0 = (of_char t, ?p1)" using i Nil by (simp add: fgetc_def)
    moreover have "csv_unquoted_loop R (of_char t) ?p1 = Inr (of_char t, ?p1)"
      using cfg t by (subst csv_unquoted_loop.simps) auto
    ultimately show ?thesis using bi0 f0 Nil tq zp
      by (intro exI [of _ "of_char t"] exI [of _ ?p1]) (simp add: of_char_not_EOF frame_refl)
  next
    case (Cons x f')
    let ?p1 = "?p0\<lparr>inp := f' @ t # r\<rparr>"
    have g: "fgetc ?p0 = (of_char x, ?p1)" using i Cons by (simp add: fgetc_def)
    have x: "x \<noteq> sep" "x \<noteq> rsep" "x \<noteq> CHR 0x22" "sep \<notin> set f'" "rsep \<notin> set f'"
      using f Cons by auto
    have "\<exists>q. csv_unquoted_loop R (of_char x) ?p1 = Inr (of_char t, q) \<and> buf_inv q
        \<and> field q = field ?p1 @ x # f' \<and> inp q = r \<and> nLine q = nLine ?p1 \<and> cTerm q = cTerm ?p1
        \<and> frame ?p1 q"
      using bi0 cfg x t by (intro bare_scan [OF R NF]) simp_all
    then obtain q where "csv_unquoted_loop R (of_char x) ?p1 = Inr (of_char t, q)" "buf_inv q"
        "field q = x # f'" "inp q = r" "nLine q = nLine p" "frame p q"
      using f0 by auto
    with field_cons_buffer [of q x f'] show ?thesis using g x(3) Cons
      by (auto simp: of_char_not_EOF of_char_cQuote)
  qed
  then obtain c p1 q where q: "fgetc ?p0 = (c, p1)" "c \<noteq> EOF" "c \<noteq> cQuote"
     "csv_unquoted_loop R c p1 = Inr (of_char t, q)" "buf_inv q"
     "field q = f" "inp q = r" "nLine q = nLine p" "frame p q" "z q \<noteq> None"
    by blast
  have cq: "cColSep q = of_char sep" "cRowSep q = of_char rsep"
    using q(9) cfg by (simp_all add: frame_def)
  have rd: "csv_read_one_field R False p =
       (case csv_unquoted_end (of_char t) q of
                     Inl f \<Rightarrow> Inl f
                   | Inr p3 \<Rightarrow> terminate_field p3)"
    using q(1-4) by (simp add: csv_read_one_field_def)
  have "\<exists>q3. csv_unquoted_end (of_char t) q = Inr q3 \<and> buf_inv q3 \<and> field q3 = strip_cr t rsep f
        \<and> inp q3 = r \<and> cTerm q3 = of_char t \<and> nLine q3 = nLine p + (if t = rsep then 1 else 0)
        \<and> frame p q3 \<and> z q3 = z q"
  proof (cases "t = rsep \<and> f \<noteq> []")
    case False
    then have "csv_unquoted_end (of_char t) q =
        Inr (if t = rsep then q\<lparr>nLine := nLine q + 1, cTerm := of_char t\<rparr> else q\<lparr>cTerm := of_char t\<rparr>)"
      using cq length_field [OF q(5)] q(6)
      by (auto simp: csv_unquoted_end_def Let_def)
    with False q show ?thesis by (auto simp: strip_cr_def)
  next
    case True
    then obtain w y where wy: "f = w @ [y]" by (metis rev_exhaust)
    from length_field [OF q(5)] q(6) wy have nq: "n q = int (length w) + 1" by simp
    then have nn: "nat (n q - 1) = length w" "nat (n q) = Suc (length w)" by simp_all
    from q(6) wy obtain b where b: "z q = Some b" "take (Suc (length w)) b = w @ [y]"
      by (auto simp: field_def nn split: option.splits)
    from q(5) b have lb: "n q < int (length b)" by (auto simp: buf_inv_def ctx_wf_def)
    have "take (Suc (length w)) b ! length w = y" by (simp only: b(2)) simp
    then have y: "b ! length w = y" by simp
    have "take (length w) (take (Suc (length w)) b) = w" by (simp only: b(2)) simp
    then have tw: "take (length w) b = w" by (simp add: min_def)
    have c1: "0 < n q" "\<not> int (length b) \<le> n q - 1" using nq lb by simp_all
    show ?thesis
    proof (cases "y = CHR 0x0D")
      case cr: True
      have "csv_unquoted_end (of_char t) q =
          Inr (q\<lparr>nLine := nLine q + 1, n := n q - 1, cTerm := of_char t\<rparr>)"
        using True cq b(1) c1 y cr
        by (simp add: csv_unquoted_end_def Let_def nn cCR_def)
      moreover have "buf_inv (q\<lparr>nLine := nLine q + 1, n := n q - 1, cTerm := of_char t\<rparr>)"
        using q(5) c1 by (auto simp: buf_inv_def ctx_wf_def split: option.splits)
      moreover have "field (q\<lparr>nLine := nLine q + 1, n := n q - 1, cTerm := of_char t\<rparr>) = w"
        using b(1) tw by (simp add: field_def nn)
      ultimately show ?thesis using True q wy cr b(1)
        by (simp add: strip_cr_def)
    next
      case nocr: False
      have "csv_unquoted_end (of_char t) q = Inr (q\<lparr>nLine := nLine q + 1, cTerm := of_char t\<rparr>)"
        using True cq b(1) c1 y nocr
        by (simp add: csv_unquoted_end_def Let_def nn of_char_cCR)
      with True q wy nocr b(1) show ?thesis
        by (simp add: strip_cr_def)
    qed
  qed
  then obtain q3 where q3: "csv_unquoted_end (of_char t) q = Inr q3" "buf_inv q3"
      "field q3 = strip_cr t rsep f"
      "inp q3 = r" "cTerm q3 = of_char t" "nLine q3 = nLine p + (if t = rsep then 1 else 0)"
      "frame p q3" "z q3 = z q"
    by blast
  from q(10) q3(8) have z3: "z q3 \<noteq> None" by simp
  from terminate_field_value [OF q3(2) z3] obtain b where
    b: "yields (terminate_field q3) (field q3) (q3\<lparr>z := Some b\<rparr>)" "ctx_wf (q3\<lparr>z := Some b\<rparr>)"
    by blast
  with q3 rd show ?thesis by (intro exI [of _ "q3\<lparr>z := Some b\<rparr>"]) simp
qed

lemma yieldsD:
  assumes "yields r v q"
  obtains b where "r = Inr (Some b, q)" "z q = Some b" "returned (Some b, q) = Some v"
    "nul_terminated (Some b, q)"
  using assms by (auto simp: yields_def returned_def nul_terminated_def split: option.splits)

lemma read_cell:
  assumes R: "realloc_ok R" and NF: "never_fails R" and wf: "ctx_wf p" and zp: "z p \<noteq> None"
    and cfg: "cColSep p = of_char sep" "cRowSep p = of_char rsep"
    and dq: "sep \<noteq> CHR 0x22" "rsep \<noteq> CHR 0x22" and sr: "sep \<noteq> rsep"
    and ok: "cell_ok sep rsep c"
    and t: "t = sep \<or> t = rsep" "t = rsep \<Longrightarrow> no_final_cr c"
    and i: "inp p = cell_text c @ t # r"
  shows "\<exists>q. yields (csv_read_one_field R False p) (cell_value c) q \<and> ctx_wf q
      \<and> inp q = r \<and> cTerm q = of_char t \<and> frame p q"
proof (cases c)
  case (Bare v)
  have "strip_cr t rsep v = v"
    using t sr Bare by (auto simp: strip_cr_def)
  with csv_read_bare [OF R NF wf cfg dq _ _ _ t(1), of v r] ok i zp Bare
  show ?thesis by (auto simp: bare_ok_def)
next
  case (Quoted v)
  have "quoted_end sep rsep (t # r) = Some (of_char t, r)"
    using t(1) by (simp add: quoted_end_def)
  from csv_read_quoted [OF R NF wf cfg dq this, of v] i Quoted
  show ?thesis by auto
qed

lemma read_cell_crlf:
  assumes R: "realloc_ok R" and NF: "never_fails R" and wf: "ctx_wf p" and zp: "z p \<noteq> None"
    and cfg: "cColSep p = of_char sep" "cRowSep p = of_char rsep"
    and dq: "sep \<noteq> CHR 0x22" "rsep \<noteq> CHR 0x22"
    and cr: "sep \<noteq> CHR 0x0D" "rsep \<noteq> CHR 0x0D"
    and ok: "cell_ok sep rsep c"
    and i: "inp p = cell_text c @ CHR 0x0D # rsep # r"
  shows "\<exists>q. yields (csv_read_one_field R False p) (cell_value c) q \<and> ctx_wf q
      \<and> inp q = r \<and> cTerm q = of_char rsep \<and> frame p q"
proof (cases c)
  case (Bare v)
  have "strip_cr rsep rsep (v @ [CHR 0x0D]) = v"
    by (simp add: strip_cr_def)
  moreover have "sep \<notin> set (v @ [CHR 0x0D])" "rsep \<notin> set (v @ [CHR 0x0D])"
    "v @ [CHR 0x0D] = [] \<or> hd (v @ [CHR 0x0D]) \<noteq> CHR 0x22"
    using ok cr Bare by (auto simp: bare_ok_def hd_append)
  moreover have "inp p = (v @ [CHR 0x0D]) @ rsep # r" using i Bare by simp
  ultimately show ?thesis
    using csv_read_bare [OF R NF wf cfg dq, of "v @ [CHR 0x0D]" rsep r] zp Bare
    by auto
next
  case (Quoted v)
  have "quoted_end sep rsep (CHR 0x0D # rsep # r) = Some (of_char rsep, r)"
    using cr by (auto simp: quoted_end_def)
  from csv_read_quoted [OF R NF wf cfg dq this, of v] i Quoted
  show ?thesis by auto
qed

lemma read_row:
  assumes R: "realloc_ok R" and NF: "never_fails R"
    and dq: "sep \<noteq> CHR 0x22" "rsep \<noteq> CHR 0x22" and sr: "sep \<noteq> rsep"
    and eol: "eol_ok sep rsep eol"
  shows "ctx_wf p \<Longrightarrow> z p \<noteq> None \<Longrightarrow> cColSep p = of_char sep \<Longrightarrow> cRowSep p = of_char rsep \<Longrightarrow>
     cells \<noteq> [] \<Longrightarrow> list_all (cell_ok sep rsep) cells \<Longrightarrow>
     (eol = [rsep] \<longrightarrow> no_final_cr (last cells)) \<Longrightarrow>
     inp p = row_text sep eol cells @ rest \<Longrightarrow>
     \<exists>rs. read_fields R (length cells) p = Inr rs
       \<and> map returned rs = map (\<lambda>c. Some (cell_value c)) cells
       \<and> list_all nul_terminated rs
       \<and> map (\<lambda>r. cTerm (snd r)) rs = replicate (length cells - 1) (of_char sep) @ [of_char rsep]
       \<and> inp (snd (last rs)) = rest \<and> frame p (snd (last rs))"
proof (induction cells arbitrary: p rule: induct_list012)
  case 1
  then show ?case by simp
next
  case (2 c)
  have ok: "cell_ok sep rsep c" using 2(6) by simp
  have "\<exists>q. yields (csv_read_one_field R False p) (cell_value c) q \<and> ctx_wf q
      \<and> inp q = rest \<and> cTerm q = of_char rsep \<and> frame p q"
  proof (cases "eol = [rsep]")
    case True
    with 2(7) have "no_final_cr c" by simp
    with read_cell [OF R NF 2(1-4) dq sr ok, of rsep rest] 2(8) True
    show ?thesis by simp
  next
    case False
    with eol have e: "eol = [CHR 0x0D, rsep]" "sep \<noteq> CHR 0x0D" "rsep \<noteq> CHR 0x0D"
      by (auto simp: eol_ok_def)
    with read_cell_crlf [OF R NF 2(1-4) dq e(2,3) ok, of rest] 2(8)
    show ?thesis by simp
  qed
  then obtain q where q: "yields (csv_read_one_field R False p) (cell_value c) q"
    "inp q = rest" "cTerm q = of_char rsep" "frame p q" by blast
  from yieldsD [OF q(1)] obtain b where
    b: "csv_read_one_field R False p = Inr (Some b, q)" "returned (Some b, q) = Some (cell_value c)"
      "nul_terminated (Some b, q)" by metis
  show ?case using b q
    by (intro exI [of _ "[(Some b, q)]"]) simp
next
  case (3 c d cs)
  have ok: "cell_ok sep rsep c" using 3(8) by simp
  have i: "inp p = cell_text c @ sep # (row_text sep eol (d # cs) @ rest)" using 3(10) by simp
  from read_cell [OF R NF 3(3-6) dq sr ok _ _ i] sr obtain q where
    q: "yields (csv_read_one_field R False p) (cell_value c) q" "ctx_wf q"
    "inp q = row_text sep eol (d # cs) @ rest" "cTerm q = of_char sep" "frame p q" by auto
  from yieldsD [OF q(1)] obtain b where
    b: "csv_read_one_field R False p = Inr (Some b, q)" "z q = Some b"
      "returned (Some b, q) = Some (cell_value c)"
      "nul_terminated (Some b, q)" by metis
  have cq: "cColSep q = of_char sep" "cRowSep q = of_char rsep"
    using q(5) 3(5,6) by (simp_all add: frame_def)
  have "\<exists>rs. read_fields R (length (d # cs)) q = Inr rs
       \<and> map returned rs = map (\<lambda>c. Some (cell_value c)) (d # cs)
       \<and> list_all nul_terminated rs
       \<and> map (\<lambda>r. cTerm (snd r)) rs = replicate (length (d # cs) - 1) (of_char sep) @ [of_char rsep]
       \<and> inp (snd (last rs)) = rest \<and> frame q (snd (last rs))"
    using q(2,3) b(2) cq 3(8,9) by (intro 3(2)) simp_all
  then obtain rs where rs: "read_fields R (length (d # cs)) q = Inr rs"
       "map returned rs = map (\<lambda>c. Some (cell_value c)) (d # cs)"
       "list_all nul_terminated rs"
       "map (\<lambda>r. cTerm (snd r)) rs = replicate (length (d # cs) - 1) (of_char sep) @ [of_char rsep]"
       "inp (snd (last rs)) = rest" "frame q (snd (last rs))" by blast
  from rs(2) have ne: "rs \<noteq> []" by auto
  show ?case using b q(4,5) rs ne
    by (intro exI [of _ "(Some b, q) # rs"]) (auto intro: frame_trans)
qed

text \<open>
  C2. The input starts with a quoted field: a quote, the content \<open>v\<close> with each of its
  quotes doubled, the closing quote, and then the column separator, the row separator,
  CR and the row separator, or the end of the input. Whatever bytes \<open>v\<close> holds, column
  and row separators included, \<open>csv_read_one_field\<close> returns a buffer that holds
  exactly \<open>v\<close> followed by a NUL, stores what ended the field as the terminator,
  leaves the rest of the input unread and prints nothing.
\<close>

theorem quoted_field_value:
  assumes "realloc_ok R" and "never_fails R" and "ctx_wf p"
    and "cColSep p = of_char sep" and "cRowSep p = of_char rsep"
    and "sep \<noteq> CHR 0x22" and "rsep \<noteq> CHR 0x22"
    and "quoted_end sep rsep tail = Some (tm, rest)"
    and "inp p = CHR 0x22 # double_quotes v @ CHR 0x22 # tail"
  shows "\<exists>b q. csv_read_one_field R False p = Inr (Some b, q)
           \<and> returned (Some b, q) = Some v \<and> nul_terminated (Some b, q)
           \<and> cTerm q = tm \<and> inp q = rest \<and> err q = err p"
proof -
  from csv_read_quoted [OF assms] obtain q where
    q: "yields (csv_read_one_field R False p) v q" "inp q = rest" "cTerm q = tm" "frame p q"
    by blast
  from yieldsD [OF q(1)] obtain b where
    "csv_read_one_field R False p = Inr (Some b, q)" "returned (Some b, q) = Some v"
      "nul_terminated (Some b, q)" by metis
  with q show ?thesis by (auto simp: frame_def)
qed

theorem quoted_field_value_witness:
  "returned (projr (csv_read_one_field realloc_pad False (ctx_fresh quoted_example)))
     = Some (''a,b'' @ [CHR 0x0A] @ ''c'' @ [CHR 0x22] @ ''d'')
   \<and> cTerm (snd (projr (csv_read_one_field realloc_pad False (ctx_fresh quoted_example)))) = EOF
   \<and> inp (snd (projr (csv_read_one_field realloc_pad False (ctx_fresh quoted_example)))) = []
   \<and> err (snd (projr (csv_read_one_field realloc_pad False (ctx_fresh quoted_example)))) = []"
proof -
  have wf: "ctx_wf (ctx_fresh quoted_example)"
    by (simp add: ctx_wf_def ctx_fresh_def)
  have cfg: "cColSep (ctx_fresh quoted_example) = of_char (CHR '','')"
    "cRowSep (ctx_fresh quoted_example) = of_char (CHR 0x0A)"
    by (simp_all add: ctx_fresh_def)
  have e: "quoted_end (CHR '','') (CHR 0x0A) [] = Some (EOF, [])"
    by (simp add: quoted_end_def)
  have i: "inp (ctx_fresh quoted_example) =
      CHR 0x22 # double_quotes (''a,b'' @ [CHR 0x0A] @ ''c'' @ [CHR 0x22] @ ''d'') @ CHR 0x22 # []"
    by (simp add: ctx_fresh_def quoted_example_def double_quotes_def)
  from quoted_field_value [OF realloc_pad_ok realloc_pad_never_fails wf cfg _ _ e i]
  show ?thesis by (auto simp: ctx_fresh_def)
qed

text \<open>
  C1. The input starts with a row of \<open>N\<close> fields, each one bare (without the two
  separators and not starting with a quote) or quoted (any bytes, quotes doubled), with
  the column separator between them and the row separator, or CR and the row separator,
  after the last. With a buffer already allocated, as \<open>sqlite_import\<close> has it, \<open>N\<close>
  calls of \<open>csv_read_one_field\<close> return the \<open>N\<close> field values in order, each
  followed by a NUL in the buffer; the first \<open>N - 1\<close> calls store the column separator
  as the terminator and the last one the row separator, and the input after the row
  is left unread.
\<close>

theorem row_fields_in_order:
  assumes "realloc_ok R" and "never_fails R" and "ctx_wf p" and "z p \<noteq> None"
    and "cColSep p = of_char sep" and "cRowSep p = of_char rsep"
    and "sep \<noteq> CHR 0x22" and "rsep \<noteq> CHR 0x22" and "sep \<noteq> rsep"
    and "row_ok sep rsep eol cells"
    and "inp p = row_text sep eol cells @ rest"
  shows "\<exists>rs. read_fields R (length cells) p = Inr rs
       \<and> map returned rs = map (\<lambda>c. Some (cell_value c)) cells
       \<and> list_all nul_terminated rs
       \<and> map (\<lambda>r. cTerm (snd r)) rs = replicate (length cells - 1) (of_char sep) @ [of_char rsep]
       \<and> cTerm (snd (last rs)) = of_char rsep
       \<and> inp (snd (last rs)) = rest"
proof -
  from assms(10) have ok: "eol_ok sep rsep eol" "cells \<noteq> []" "list_all (cell_ok sep rsep) cells"
    "eol = [rsep] \<longrightarrow> no_final_cr (last cells)"
    by (simp_all add: row_ok_def)
  from read_row [OF assms(1,2,7,8,9) ok(1) assms(3,4,5,6) ok(2,3,4) assms(11)]
  obtain rs where rs: "read_fields R (length cells) p = Inr rs"
       "map returned rs = map (\<lambda>c. Some (cell_value c)) cells"
       "list_all nul_terminated rs"
       "map (\<lambda>r. cTerm (snd r)) rs = replicate (length cells - 1) (of_char sep) @ [of_char rsep]"
       "inp (snd (last rs)) = rest" by blast
  from rs(2) ok(2) have ne: "rs \<noteq> []" by auto
  have "last (map (\<lambda>r. cTerm (snd r)) rs) = of_char rsep" by (simp add: rs(4))
  with ne have "cTerm (snd (last rs)) = of_char rsep" by (simp add: last_map)
  with rs show ?thesis by blast
qed

theorem row_fields_in_order_witness:
  "map returned (projr (read_fields realloc_pad 3 (ctx_fresh row_example)))
     = [Some ''1'', Some (''a,b'' @ [CHR 0x22]), Some ''x y'']
   \<and> map (\<lambda>r. cTerm (snd r)) (projr (read_fields realloc_pad 3 (ctx_fresh row_example)))
     = [44, 44, 10]
   \<and> inp (snd (last (projr (read_fields realloc_pad 3 (ctx_fresh row_example))))) = ''2,''"
proof -
  let ?cells = "[Bare ''1'', Quoted (''a,b'' @ [CHR 0x22]), Bare ''x y'']"
  have wf: "ctx_wf (ctx_fresh row_example)" "z (ctx_fresh row_example) \<noteq> None"
    by (simp_all add: ctx_wf_def ctx_fresh_def)
  have cfg: "cColSep (ctx_fresh row_example) = of_char (CHR '','')"
    "cRowSep (ctx_fresh row_example) = of_char (CHR 0x0A)"
    by (simp_all add: ctx_fresh_def)
  have ok: "row_ok (CHR '','') (CHR 0x0A) [CHR 0x0D, CHR 0x0A] ?cells"
    by (simp add: row_ok_def eol_ok_def bare_ok_def)
  have i: "inp (ctx_fresh row_example) =
      row_text (CHR '','') [CHR 0x0D, CHR 0x0A] ?cells @ ''2,''"
    by (simp add: ctx_fresh_def row_example_def double_quotes_def)
  have len: "length ?cells = 3" by simp
  have "\<exists>rs. read_fields realloc_pad (length ?cells) (ctx_fresh row_example) = Inr rs
       \<and> map returned rs = map (\<lambda>c. Some (cell_value c)) ?cells
       \<and> list_all nul_terminated rs
       \<and> map (\<lambda>r. cTerm (snd r)) rs
            = replicate (length ?cells - 1) (of_char (CHR '','')) @ [of_char (CHR 0x0A)]
       \<and> cTerm (snd (last rs)) = of_char (CHR 0x0A)
       \<and> inp (snd (last rs)) = ''2,''"
    by (rule row_fields_in_order [OF realloc_pad_ok realloc_pad_never_fails wf cfg _ _ _ ok i])
       simp_all
  then obtain rs where rs: "read_fields realloc_pad 3 (ctx_fresh row_example) = Inr rs"
       "map returned rs = map (\<lambda>c. Some (cell_value c)) ?cells"
       "map (\<lambda>r. cTerm (snd r)) rs
            = replicate (length ?cells - 1) (of_char (CHR '','')) @ [of_char (CHR 0x0A)]"
       "inp (snd (last rs)) = ''2,''"
    unfolding len by blast
  show ?thesis unfolding rs(1) using rs(2-4) by simp
qed

subsection \<open>The lines in the messages of the field reader\<close>

lemma reader_diag_mono:
  "reader_diag F sl a b d \<Longrightarrow> a' \<le> a \<Longrightarrow> b \<le> b' \<Longrightarrow> reader_diag F sl a' b' d"
  by (auto simp: reader_diag_def split: diag.splits)

lemma reader_step_refl: "reader_step sl p p"
  by (simp add: reader_step_def)

lemma reader_step_trans:
  assumes "reader_step sl p q" and "reader_step sl q r"
  shows "reader_step sl p r"
proof -
  from assms obtain n1 n2 where
    a: "zFile q = zFile p" "nLine p \<le> nLine q" "err q = err p @ n1"
       "list_all (reader_diag (zFile p) sl (nLine p) (nLine q)) n1"
    and b: "zFile r = zFile q" "nLine q \<le> nLine r" "err r = err q @ n2"
       "list_all (reader_diag (zFile q) sl (nLine q) (nLine r)) n2"
    by (auto simp: reader_step_def)
  have "list_all (reader_diag (zFile p) sl (nLine p) (nLine r)) n1"
    using a(4) b(2) by (auto simp: list_all_iff intro: reader_diag_mono)
  moreover have "list_all (reader_diag (zFile p) sl (nLine p) (nLine r)) n2"
    using b(4) a(1,2) by (auto simp: list_all_iff intro: reader_diag_mono)
  ultimately show ?thesis using a b by (simp add: reader_step_def)
qed

lemma import_append_char_keeps:
  "import_append_char R p c = Inr q \<Longrightarrow>
   err q = err p \<and> nLine q = nLine p \<and> zFile q = zFile p \<and> inp q = inp p
   \<and> cColSep q = cColSep p \<and> cRowSep q = cRowSep p"
  by (auto simp: import_append_char_def Let_def split: if_splits option.splits)

lemma strip_quote_keeps:
  "strip_quote p = Inr q \<Longrightarrow> err q = err p \<and> nLine q = nLine p \<and> zFile q = zFile p"
proof (induction p rule: strip_quote.induct)
  case (1 p)
  let ?p1 = "p\<lparr>n := n p - 1\<rparr>"
  from "1.prems" obtain b where b: "z ?p1 = Some b"
    "\<not> (n ?p1 < 0 \<or> int (length b) \<le> n ?p1)"
    by (subst (asm) strip_quote.simps) (auto simp: Let_def split: option.splits if_splits)
  show ?case
  proof (cases "of_char (b ! nat (n ?p1)) \<noteq> (cQuote :: int)")
    case True
    with "1.prems" b have "strip_quote ?p1 = Inr q"
      by (subst (asm) strip_quote.simps) (auto simp: Let_def)
    from "1.IH" [OF refl b(1) b(2) True this] show ?thesis by simp
  next
    case False
    with "1.prems" b have "q = ?p1"
      by (subst (asm) strip_quote.simps) (auto simp: Let_def)
    then show ?thesis by simp
  qed
qed

lemma csv_quoted_loop_messages:
  "csv_quoted_loop R sl pc ppc p = Inr q \<Longrightarrow> reader_step sl p q"
proof (induction "length (inp p)" arbitrary: p pc ppc rule: less_induct)
  case less
  note res = less.prems
  obtain c p1 where f: "fgetc p = (c, p1)" by (cases "fgetc p")
  from fgetc_facts [OF f] obtain xs where p1: "p1 = p\<lparr>inp := xs\<rparr>"
    and xs: "length xs \<le> length (inp p)" "c \<noteq> EOF \<Longrightarrow> length xs < length (inp p)"
    by blast
  define p2 where "p2 = (if c = cRowSep p1 then p1\<lparr>nLine := nLine p1 + 1\<rparr> else p1)"
  have i2: "inp p2 = xs" by (simp add: p2_def p1)
  have st2: "reader_step sl p p2" by (simp add: p2_def p1 reader_step_def)
  let ?stop = "(c = cColSep p2 \<and> pc = cQuote) \<or> (c = cRowSep p2 \<and> pc = cQuote)
              \<or> (c = cRowSep p2 \<and> pc = cCR \<and> ppc = cQuote) \<or> (c = EOF \<and> pc = cQuote)"
  define p3 where "p3 = (if pc = cQuote \<and> c \<noteq> cCR
                    then p2\<lparr>err := err p2 @ [UnescapedQuote (zFile p2) (nLine p2)]\<rparr>
                    else p2)"
  have unf: "csv_quoted_loop R sl pc ppc p =
     (if c = cQuote \<and> pc = cQuote then csv_quoted_loop R sl 0 ppc p2
      else if ?stop
        then (case strip_quote p2 of
                Inl f \<Rightarrow> Inl f
              | Inr p3 \<Rightarrow> Inr (p3\<lparr>cTerm := c\<rparr>))
        else
          if c = EOF
          then Inr (p3\<lparr>err := err p3 @ [UnterminatedQuote (zFile p3) sl],
                      cTerm := c\<rparr>)
          else (case import_append_char R p3 c of
                  Inl f \<Rightarrow> Inl f
                | Inr p4 \<Rightarrow> csv_quoted_loop R sl c pc p4))"
    by (subst csv_quoted_loop.simps)
       (simp only: f prod.case Let_def p2_def [symmetric] p3_def [symmetric])
  have i3: "inp p3 = xs" using i2 by (simp add: p3_def)
  have "reader_step sl p2 p3" by (simp add: p3_def reader_step_def reader_diag_def)
  with st2 have st3: "reader_step sl p p3" by (rule reader_step_trans)
  show ?case
  proof (cases "c = cQuote \<and> pc = cQuote")
    case True
    then have "c \<noteq> EOF" by (simp add: cQuote_def EOF_def)
    then have lt: "length (inp p2) < length (inp p)" using xs(2) i2 by simp
    have "csv_quoted_loop R sl pc ppc p = csv_quoted_loop R sl 0 ppc p2"
      by (subst unf) (insert True, auto)
    with res have "csv_quoted_loop R sl 0 ppc p2 = Inr q" by simp
    from less.hyps [OF lt this] st2 show ?thesis by (blast intro: reader_step_trans)
  next
    case nopair: False
    show ?thesis
    proof (cases ?stop)
      case True
      have "csv_quoted_loop R sl pc ppc p =
              (case strip_quote p2 of Inl f \<Rightarrow> Inl f | Inr p3 \<Rightarrow> Inr (p3\<lparr>cTerm := c\<rparr>))"
        by (subst unf) (insert nopair True, auto)
      with res obtain p3' where s: "strip_quote p2 = Inr p3'" "q = p3'\<lparr>cTerm := c\<rparr>"
        by (auto split: sum.splits)
      from strip_quote_keeps [OF s(1)] s(2) have "reader_step sl p2 q"
        by (simp add: reader_step_def)
      with st2 show ?thesis by (rule reader_step_trans)
    next
      case nostop: False
      show ?thesis
      proof (cases "c = EOF")
        case True
        have "csv_quoted_loop R sl pc ppc p =
            Inr (p3\<lparr>err := err p3 @ [UnterminatedQuote (zFile p3) sl], cTerm := c\<rparr>)"
          by (subst unf) (insert nopair nostop True, auto)
        with res
        have "q = p3\<lparr>err := err p3 @ [UnterminatedQuote (zFile p3) sl], cTerm := c\<rparr>"
          by simp
        then have "reader_step sl p3 q" by (simp add: reader_step_def reader_diag_def)
        with st3 show ?thesis by (rule reader_step_trans)
      next
        case False
        have "csv_quoted_loop R sl pc ppc p =
            (case import_append_char R p3 c of
               Inl f \<Rightarrow> Inl f
             | Inr p4 \<Rightarrow> csv_quoted_loop R sl c pc p4)"
          by (subst unf) (insert nopair nostop False, auto)
        with res obtain p4 where
          a: "import_append_char R p3 c = Inr p4" "csv_quoted_loop R sl c pc p4 = Inr q"
          by (auto split: sum.splits)
        note k = import_append_char_keeps [OF a(1)]
        from k i3 xs(2) False have lt: "length (inp p4) < length (inp p)" by simp
        from k have "reader_step sl p3 p4" by (simp add: reader_step_def)
        with st3 have "reader_step sl p p4" by (rule reader_step_trans)
        with less.hyps [OF lt a(2)] show ?thesis by (blast intro: reader_step_trans)
      qed
    qed
  qed
qed

lemma csv_unquoted_loop_keeps:
  "csv_unquoted_loop R c p = Inr (c', q) \<Longrightarrow>
   err q = err p \<and> nLine q = nLine p \<and> zFile q = zFile p"
proof (induction "length (inp p) + (if c = EOF then 0 else 1)" arbitrary: c p
       rule: less_induct)
  case less
  show ?case
  proof (cases "c \<noteq> EOF \<and> c \<noteq> cColSep p \<and> c \<noteq> cRowSep p")
    case False
    with less.prems have "q = p"
      by (subst (asm) csv_unquoted_loop.simps) auto
    then show ?thesis by simp
  next
    case True
    with less.prems obtain p1 c1 p2 where
      a: "import_append_char R p c = Inr p1" "fgetc p1 = (c1, p2)"
         "csv_unquoted_loop R c1 p2 = Inr (c', q)"
      by (subst (asm) csv_unquoted_loop.simps) (auto split: sum.splits prod.splits)
    note k = import_append_char_keeps [OF a(1)]
    from fgetc_facts [OF a(2)] obtain xs where p2: "p2 = p1\<lparr>inp := xs\<rparr>"
      and xs: "length xs \<le> length (inp p1)" "c1 \<noteq> EOF \<Longrightarrow> length xs < length (inp p1)"
      by blast
    have "length (inp p2) + (if c1 = EOF then 0 else 1)
            < length (inp p) + (if c = EOF then 0 else 1)"
      using xs k True by (cases "c1 = EOF") (simp_all add: p2)
    from less.hyps [OF this a(3)] k show ?thesis by (simp add: p2)
  qed
qed

lemma csv_unquoted_end_keeps:
  "csv_unquoted_end c p = Inr q \<Longrightarrow>
   err q = err p \<and> nLine p \<le> nLine q \<and> zFile q = zFile p"
  by (auto simp: csv_unquoted_end_def Let_def split: if_splits option.splits)

lemma terminate_field_keeps:
  "terminate_field p = Inr (zr, q) \<Longrightarrow>
   err q = err p \<and> nLine q = nLine p \<and> zFile q = zFile p \<and> zr = z q"
  by (auto simp: terminate_field_def Let_def split: if_splits option.splits)

lemma csv_read_messages:
  assumes "csv_read_one_field R intr p = Inr (zr, p')"
  shows "reader_step (nLine p) p p'"
proof -
  obtain c p1 where f: "fgetc (p\<lparr>n := 0\<rparr>) = (c, p1)" by (cases "fgetc (p\<lparr>n := 0\<rparr>)")
  from fgetc_facts [OF f] obtain xs where p1: "p1 = p\<lparr>n := 0, inp := xs\<rparr>" by auto
  have st1: "reader_step (nLine p) p p1" by (simp add: p1 reader_step_def)
  have l1: "nLine p1 = nLine p" by (simp add: p1)
  show ?thesis
  proof (cases "c = EOF \<or> intr")
    case True
    with assms f have "p' = p1\<lparr>cTerm := EOF\<rparr>" by (auto simp: csv_read_one_field_def)
    then show ?thesis by (simp add: p1 reader_step_def)
  next
    case early: False
    show ?thesis
    proof (cases "c = cQuote")
      case True
      with assms f early obtain p2 where
        a: "csv_quoted_loop R (nLine p1) 0 0 p1 = Inr p2" "terminate_field p2 = Inr (zr, p')"
        by (auto simp: csv_read_one_field_def split: sum.splits)
      from csv_quoted_loop_messages [OF a(1)] have "reader_step (nLine p) p1 p2"
        by (simp add: l1)
      moreover from terminate_field_keeps [OF a(2)] have "reader_step (nLine p) p2 p'"
        by (simp add: reader_step_def)
      ultimately show ?thesis using st1 by (blast intro: reader_step_trans)
    next
      case False
      with assms f early obtain c' p2 p3 where
        a: "csv_unquoted_loop R c p1 = Inr (c', p2)" "csv_unquoted_end c' p2 = Inr p3"
           "terminate_field p3 = Inr (zr, p')"
        by (auto simp: csv_read_one_field_def split: sum.splits prod.splits)
      from csv_unquoted_loop_keeps [OF a(1)] have "reader_step (nLine p) p1 p2"
        by (simp add: reader_step_def)
      moreover from csv_unquoted_end_keeps [OF a(2)] have "reader_step (nLine p) p2 p3"
        by (simp add: reader_step_def)
      moreover from terminate_field_keeps [OF a(3)] have "reader_step (nLine p) p3 p'"
        by (simp add: reader_step_def)
      ultimately show ?thesis using st1 by (blast intro: reader_step_trans)
    qed
  qed
qed

subsection \<open>The rows\<close>

lemma xRead_csv: "xRead MODE_Csv = csv_read_one_field"
  by (simp add: xRead_def MODE_Csv_def MODE_Ascii_def)

lemma csv_not_ascii: "MODE_Csv \<noteq> MODE_Ascii"
  by (simp add: MODE_Csv_def MODE_Ascii_def)

lemma read_fields_Suc:
  "read_fields R (Suc k) p = Inr rs \<longleftrightarrow>
     (\<exists>zr c rs'. rs = (zr, c) # rs' \<and> csv_read_one_field R False p = Inr (zr, c)
        \<and> read_fields R k c = Inr rs')"
  by (auto simp: read_fields.simps split: sum.splits prod.splits)

declare read_fields.simps(2) [simp del]

lemma read_fields_length: "read_fields R k p = Inr rs \<Longrightarrow> length rs = k"
  by (induction k arbitrary: p rs) (auto simp: read_fields_Suc)

lemma read_fields_append:
  "read_fields R (a + b) p = Inr rs \<Longrightarrow>
     read_fields R a p = Inr (take a rs)
     \<and> read_fields R b (last_ctx p (take a rs)) = Inr (drop a rs)"
proof (induction a arbitrary: p rs)
  case 0
  then show ?case by (simp add: last_ctx_def)
next
  case (Suc a)
  from Suc.prems obtain zr c rs' where r: "rs = (zr, c) # rs'"
    "csv_read_one_field R False p = Inr (zr, c)" "read_fields R (a + b) c = Inr rs'"
    by (auto simp: read_fields_Suc)
  from Suc.IH [OF r(3)] have ih: "read_fields R a c = Inr (take a rs')"
    "read_fields R b (last_ctx c (take a rs')) = Inr (drop a rs')" by auto
  have "last_ctx p (take (Suc a) rs) = last_ctx c (take a rs')"
    by (simp add: r(1) last_ctx_def)
  with ih r show ?case by (simp add: read_fields_Suc)
qed

lemma bind_value_simps [simp]:
  "sCtx (bind_value i v s) = sCtx s"
  "dbLog (bind_value i v s) = dbLog s"
  "length (binds (bind_value i v s)) = length (binds s)"
  by (simp_all add: bind_value_def)

lemma bind_text_simps [simp]:
  "sCtx (sqlite3_bind_text i zr s) = sCtx s"
  "dbLog (sqlite3_bind_text i zr s) = dbLog s"
  "length (binds (sqlite3_bind_text i zr s)) = length (binds s)"
  by (simp_all add: sqlite3_bind_text_def)

lemma bind_null_simps [simp]:
  "sCtx (sqlite3_bind_null i s) = sCtx s"
  "dbLog (sqlite3_bind_null i s) = dbLog s"
  "length (binds (sqlite3_bind_null i s)) = length (binds s)"
  by (simp_all add: sqlite3_bind_null_def)

lemma bind_all_frame [simp]:
  "sCtx (bind_all i rs s) = last_ctx (sCtx s) rs"
  "dbLog (bind_all i rs s) = dbLog s"
  "length (binds (bind_all i rs s)) = length (binds s)"
  by (induction rs arbitrary: i s) (simp_all add: last_ctx_def)

lemma binds_bind_all:
  "0 \<le> i \<Longrightarrow> nat i + length rs \<le> length (binds s) \<Longrightarrow>
     binds (bind_all i rs s) = take (nat i) (binds s) @ map bound rs @ drop (nat i + length rs) (binds s)"
proof (induction rs arbitrary: i s)
  case Nil
  then show ?case by simp
next
  case (Cons r rs)
  let ?s1 = "sqlite3_bind_text (i + 1) (fst r) (s\<lparr>sCtx := snd r\<rparr>)"
  have b1: "binds ?s1 = (binds s)[nat i := bound r]"
    using Cons.prems by (auto simp: sqlite3_bind_text_def bind_value_def bound_def)
  have "binds (bind_all (i + 1) rs ?s1) =
      take (nat (i + 1)) (binds ?s1) @ map bound rs @ drop (nat (i + 1) + length rs) (binds ?s1)"
    using Cons.prems by (intro Cons.IH) simp_all
  also have "nat (i + 1) = Suc (nat i)" using Cons.prems(1) by simp
  also have "take (Suc (nat i)) (binds ?s1) = take (nat i) (binds s) @ [bound r]"
    using Cons.prems by (simp add: b1 take_Suc_conv_app_nth)
  also have "drop (Suc (nat i) + length rs) (binds ?s1) = drop (nat i + length (r # rs)) (binds s)"
    by (simp add: b1)
  finally show ?case by simp
qed

lemma row_fields_done: "nCol \<le> i \<Longrightarrow> row_fields E md nCol L i s = Inr (i, s)"
  by (subst row_fields.simps) simp

lemma row_fields_go_on:
  "read_fields (realloc64 E) (length rs) (sCtx s) = Inr rs \<Longrightarrow> 0 \<le> i \<Longrightarrow>
   i + int (length rs) \<le> nCol \<Longrightarrow> (i = 0 \<Longrightarrow> rs \<noteq> [] \<Longrightarrow> fst (hd rs) \<noteq> None) \<Longrightarrow>
   list_all goes_on rs \<Longrightarrow>
   row_fields E MODE_Csv nCol L i s
     = row_fields E MODE_Csv nCol L (i + int (length rs)) (bind_all i rs s)"
proof (induction rs arbitrary: i s)
  case Nil
  then show ?case by simp
next
  case (Cons r rs)
  obtain zr c where r: "r = (zr, c)" by (cases r)
  from Cons.prems(1) have rd: "csv_read_one_field (realloc64 E) False (sCtx s) = Inr (zr, c)"
    "read_fields (realloc64 E) (length rs) c = Inr rs"
    by (auto simp: read_fields_Suc r)
  let ?s1 = "sqlite3_bind_text (i + 1) zr (s\<lparr>sCtx := c\<rparr>)"
  have go: "cTerm c = cColSep c" using Cons.prems(5) by (simp add: goes_on_def r)
  have nb: "\<not> (zr = None \<and> i = 0)" using Cons.prems(4) by (auto simp: r)
  have lt: "i < nCol" using Cons.prems(3) by simp
  have s1: "row_fields E MODE_Csv nCol L i s = row_fields E MODE_Csv nCol L (i + 1) ?s1"
    using rd(1) go nb lt
    by (subst row_fields.simps) (auto simp: xRead_csv csv_not_ascii Let_def)
  have "row_fields E MODE_Csv nCol L (i + 1) ?s1
     = row_fields E MODE_Csv nCol L (i + 1 + int (length rs)) (bind_all (i + 1) rs ?s1)"
    using rd(2) Cons.prems(2,3,5) by (intro Cons.IH) simp_all
  moreover have "i + 1 + int (length rs) = i + int (length (r # rs))" by simp
  ultimately show ?case using s1 by (simp only: r bind_all.simps fst_conv snd_conv)
qed

lemma null_fill_result:
  "i \<le> nCol + 1 \<Longrightarrow> 1 \<le> i \<Longrightarrow> length (binds s) = nat nCol \<Longrightarrow>
     null_fill nCol i s
       = (nCol + 1, s\<lparr>binds := take (nat (i - 1)) (binds s) @ replicate (nat (nCol + 1 - i)) None\<rparr>)"
proof (induction nCol i s rule: null_fill.induct)
  case (1 nCol i s)
  show ?case
  proof (cases "i \<le> nCol")
    case False
    with "1.prems" have "i = nCol + 1" by simp
    with "1.prems" show ?thesis by (subst null_fill.simps) simp
  next
    case True
    let ?s1 = "sqlite3_bind_null i s"
    have b1: "binds ?s1 = (binds s)[nat (i - 1) := None]"
      using True "1.prems" by (simp add: sqlite3_bind_null_def bind_value_def)
    have "null_fill nCol (i + 1) ?s1
       = (nCol + 1, ?s1\<lparr>binds := take (nat (i + 1 - 1)) (binds ?s1) @ replicate (nat (nCol + 1 - (i + 1))) None\<rparr>)"
      using True "1.prems" by (intro "1.IH") simp_all
    moreover have "take (nat i) ((binds s)[nat (i - 1) := None]) = take (nat (i - 1)) (binds s) @ [None]"
    proof -
      have "nat i = Suc (nat (i - 1))" using "1.prems" by simp
      moreover have "nat (i - 1) < length (binds s)" using True "1.prems" by simp
      ultimately show ?thesis by (simp add: take_Suc_conv_app_nth)
    qed
    moreover have "replicate (nat (nCol + 1 - i)) None = None # replicate (nat (nCol - i)) (None :: string option)"
    proof -
      have "nat (nCol + 1 - i) = Suc (nat (nCol - i))" using True by simp
      then show ?thesis by simp
    qed
    moreover have "?s1\<lparr>binds := bb\<rparr> = s\<lparr>binds := bb\<rparr>" for bb
      by (simp add: sqlite3_bind_null_def bind_value_def)
    ultimately show ?thesis using True
      by (subst null_fill.simps) (simp add: b1)
  qed
qed

lemma row_fields_short:
  assumes rd: "csv_read_one_field (realloc64 E) False (sCtx s) = Inr (zr, c)"
    and i: "0 \<le> i" "i < nCol - 1" "i = 0 \<Longrightarrow> zr \<noteq> None"
    and stop: "cTerm c \<noteq> cColSep c"
    and len: "length (binds s) = nat nCol"
  shows "row_fields E MODE_Csv nCol L i s =
     Inr (nCol + 2,
          s\<lparr>sCtx := say (ShortRow (zFile c) L nCol (i + 1)) c,
            binds := take (nat i) (binds s) @ [map_option c_str zr]
                       @ replicate (nat (nCol - i - 1)) None\<rparr>)"
proof -
  let ?s1 = "sqlite3_bind_text (i + 1) zr (s\<lparr>sCtx := c\<rparr>)"
  let ?s2 = "?s1\<lparr>sCtx := say (ShortRow (zFile c) L nCol (i + 1)) c\<rparr>"
  have b1: "binds ?s1 = (binds s)[nat i := map_option c_str zr]"
    using i len by (auto simp: sqlite3_bind_text_def bind_value_def)
  have tk: "take (nat (i + 2 - 1)) (binds ?s2) = take (nat i) (binds s) @ [map_option c_str zr]"
  proof -
    have "nat (i + 2 - 1) = Suc (nat i)" using i by simp
    moreover have "nat i < length (binds s)" using i len by simp
    ultimately show ?thesis by (simp add: b1 take_Suc_conv_app_nth)
  qed
  have nf: "null_fill nCol (i + 2) ?s2 =
      (nCol + 1, ?s2\<lparr>binds := take (nat (i + 2 - 1)) (binds ?s2)
                               @ replicate (nat (nCol + 1 - (i + 2))) None\<rparr>)"
    using i len by (intro null_fill_result) simp_all
  have eq: "?s2\<lparr>binds := bb\<rparr> = s\<lparr>sCtx := say (ShortRow (zFile c) L nCol (i + 1)) c, binds := bb\<rparr>"
    for bb by (simp add: sqlite3_bind_text_def bind_value_def)
  have "row_fields E MODE_Csv nCol L i s =
      row_fields E MODE_Csv nCol L (nCol + 1 + 1)
        (?s2\<lparr>binds := take (nat (i + 2 - 1)) (binds ?s2)
                               @ replicate (nat (nCol + 1 - (i + 2))) None\<rparr>)"
    using rd i stop nf
    by (subst row_fields.simps) (auto simp: xRead_csv csv_not_ascii Let_def)
  also have "\<dots> = Inr (nCol + 1 + 1, ?s2\<lparr>binds := take (nat (i + 2 - 1)) (binds ?s2)
                               @ replicate (nat (nCol + 1 - (i + 2))) None\<rparr>)"
    by (rule row_fields_done) simp
  also have "nCol + 1 - (i + 2) = nCol - i - 1" by simp
  finally show ?thesis by (simp only: tk eq) simp
qed

lemma drain_extras_reads:
  "read_fields (realloc64 E) (length rs) (sCtx s) = Inr rs \<Longrightarrow> rs \<noteq> [] \<Longrightarrow>
   list_all goes_on (butlast rs) \<Longrightarrow> \<not> goes_on (last rs) \<Longrightarrow>
   drain_extras E MODE_Csv i s = Some (Inr (i + int (length rs), s\<lparr>sCtx := snd (last rs)\<rparr>))"
proof (induction rs arbitrary: i s)
  case Nil
  then show ?case by simp
next
  case (Cons r rs)
  obtain zr c where r: "r = (zr, c)" by (cases r)
  from Cons.prems(1) have rd: "csv_read_one_field (realloc64 E) False (sCtx s) = Inr (zr, c)"
    "read_fields (realloc64 E) (length rs) c = Inr rs"
    by (auto simp: read_fields_Suc r)
  show ?case
  proof (cases "rs = []")
    case True
    with Cons.prems(4) have "cTerm c \<noteq> cColSep c" by (simp add: goes_on_def r)
    with rd(1) True show ?thesis
      by (subst drain_extras.simps) (simp add: xRead_csv r)
  next
    case False
    with Cons.prems(3) have go: "cTerm c = cColSep c" by (simp add: goes_on_def r)
    have "drain_extras E MODE_Csv (i + 1) (s\<lparr>sCtx := c\<rparr>)
        = Some (Inr (i + 1 + int (length rs), s\<lparr>sCtx := c\<rparr>\<lparr>sCtx := snd (last rs)\<rparr>))"
      using rd(2) False Cons.prems(3,4) by (intro Cons.IH) simp_all
    moreover have "drain_extras E MODE_Csv i s = drain_extras E MODE_Csv (i + 1) (s\<lparr>sCtx := c\<rparr>)"
      using rd(1) go by (subst drain_extras.simps) (simp add: xRead_csv)
    ultimately show ?thesis using False by simp
  qed
qed

text \<open>The lines an INSERT that fails adds to \<open>stderr\<close>: none when it succeeds.\<close>

lemma insert_row_run:
  "nCol \<le> i \<Longrightarrow>
   insert_row E nCol L i s =
     s\<lparr>dbLog := dbLog s @ [Step (binds s)],
       sCtx := (if rc (db E (dbLog s) (Step (binds s))) \<noteq> 0
                then say (InsertFailed (zFile (sCtx s)) L
                       (errmsg (db E (dbLog s) (Step (binds s))))) (sCtx s)
                else sCtx s)\<rparr>"
  by (simp add: insert_row_def Let_def)

lemma butlast_snoc_reads:
  assumes rd: "read_fields R k p = Inr rs" and k: "0 < k"
  shows "read_fields R (k - 1) p = Inr (butlast rs)"
    and "read_fields R 1 (last_ctx p (butlast rs)) = Inr [last rs]"
proof -
  from read_fields_length [OF rd] k have ne: "rs \<noteq> []" "length rs = k" by auto
  from rd k have "read_fields R ((k - 1) + 1) p = Inr rs" by simp
  from read_fields_append [OF this]
  have a: "read_fields R (k - 1) p = Inr (take (k - 1) rs)"
    "read_fields R 1 (last_ctx p (take (k - 1) rs)) = Inr (drop (k - 1) rs)" by auto
  have "take (k - 1) rs = butlast rs" using ne by (simp add: butlast_conv_take)
  moreover have "drop (k - 1) rs = [last rs]"
  proof -
    have "drop (length (butlast rs)) (butlast rs @ [last rs]) = [last rs]" by simp
    moreover have "butlast rs @ [last rs] = rs" using ne by simp
    moreover have "length (butlast rs) = k - 1" using ne by simp
    ultimately show ?thesis by simp
  qed
  ultimately show "read_fields R (k - 1) p = Inr (butlast rs)"
    and "read_fields R 1 (last_ctx p (butlast rs)) = Inr [last rs]"
    using a by simp_all
qed

text \<open>The reads of a row add messages of the reader only.\<close>

lemma read_fields_messages:
  "read_fields R (length rs) p = Inr rs \<Longrightarrow>
   \<exists>new. err (last_ctx p rs) = err p @ new \<and> list_all from_reader new"
proof (induction rs arbitrary: p)
  case Nil
  then show ?case by (simp add: last_ctx_def)
next
  case (Cons r rs)
  obtain zr q where r: "r = (zr, q)" by (cases r)
  from Cons.prems have rd: "csv_read_one_field R False p = Inr (zr, q)"
    "read_fields R (length rs) q = Inr rs"
    by (auto simp: read_fields_Suc r)
  from csv_read_messages [OF rd(1)] obtain n1 where
    n1: "err q = err p @ n1" "list_all (reader_diag (zFile p) (nLine p) (nLine p) (nLine q)) n1"
    by (auto simp: reader_step_def)
  from n1(2) have f1: "list_all from_reader n1"
    by (auto simp: list_all_iff reader_diag_def from_reader_def split: diag.splits)
  from Cons.IH [OF rd(2)] obtain n2 where
    n2: "err (last_ctx q rs) = err q @ n2" "list_all from_reader n2" by blast
  have "last_ctx p (r # rs) = last_ctx q rs" by (simp add: last_ctx_def r)
  with n1(1) n2 f1 show ?case by simp
qed

lemma read_fields_messages_last:
  assumes "read_fields R k p = Inr rs" and "0 < k"
  shows "\<exists>new. err (snd (last rs)) = err p @ new \<and> list_all from_reader new"
proof -
  from read_fields_length [OF assms(1)] assms(2) have "length rs = k" "rs \<noteq> []" by auto
  with read_fields_messages [of R rs p] assms(1) show ?thesis by (simp add: last_ctx_def)
qed

text \<open>
  C3, as the code has it. A row for which the reader is called \<open>k\<close> times, \<open>k\<close> less
  than the number of columns: the first call returns a field, every call but the last
  stores the column separator as the terminator and the last one something else. Then
  the loader binds the \<open>k\<close> returned fields to the columns \<open>1..k\<close> and NULL to the
  columns \<open>k+1..nCol\<close>, prints one message "expected nCol columns but found k" with
  the line number the row started on, and runs the INSERT with these values. After the
  messages of the reader for these fields, the only other line it prints is the one of
  an INSERT that the database refuses, with the same line number.
\<close>

theorem short_row_is_null_filled:
  assumes "read_fields (realloc64 E) k (sCtx s) = Inr rs"
    and "0 < k" and "int k < nCol"
    and "fst (hd rs) \<noteq> None"
    and "list_all goes_on (butlast rs)" and "\<not> goes_on (last rs)"
    and "length (binds s) = nat nCol"
  shows "(\<exists>s'. import_row E MODE_Csv nCol s = Some (Inr s')
     \<and> binds s' = map bound rs @ replicate (nat nCol - k) None
     \<and> dbLog s' = dbLog s @ [Step (binds s')]
     \<and> err (sCtx s') =
         err (snd (last rs))
         @ [ShortRow (zFile (snd (last rs))) (nLine (sCtx s)) nCol (int k)]
         @ (if rc (db E (dbLog s) (Step (binds s'))) \<noteq> 0
            then [InsertFailed (zFile (snd (last rs))) (nLine (sCtx s))
                    (errmsg (db E (dbLog s) (Step (binds s'))))]
            else []))
     \<and> (\<exists>new. err (snd (last rs)) = err (sCtx s) @ new \<and> list_all from_reader new)"
proof -
  let ?L = "nLine (sCtx s)"
  let ?rs0 = "butlast rs"
  obtain zr c where r: "last rs = (zr, c)" by (cases "last rs")
  from read_fields_length [OF assms(1)] assms(2) have ne: "rs \<noteq> []" "length rs = k" by auto
  have l0: "length ?rs0 = k - 1" using ne by simp
  note sp = butlast_snoc_reads [OF assms(1,2)]
  have rd0: "read_fields (realloc64 E) (length ?rs0) (sCtx s) = Inr ?rs0"
    using sp(1) l0 by simp
  let ?s1 = "bind_all 0 ?rs0 s"
  have c1: "sCtx ?s1 = last_ctx (sCtx s) ?rs0" by simp
  have rd1: "csv_read_one_field (realloc64 E) False (sCtx ?s1) = Inr (zr, c)"
    using sp(2) r by (simp add: read_fields_Suc)
  have hd0: "?rs0 \<noteq> [] \<Longrightarrow> fst (hd ?rs0) \<noteq> None"
    using assms(4) ne by (cases rs) (auto split: if_splits)
  have g1: "row_fields E MODE_Csv nCol ?L 0 s
      = row_fields E MODE_Csv nCol ?L (0 + int (length ?rs0)) ?s1"
    using rd0 assms(2,3,5) hd0 l0 by (intro row_fields_go_on) simp_all
  have z0: "int (length ?rs0) = 0 \<Longrightarrow> zr \<noteq> None"
  proof -
    assume "int (length ?rs0) = 0"
    then have "rs = [last rs]" using ne by (cases rs) (auto split: if_splits)
    then have "hd rs = last rs" by (metis list.sel(1))
    with assms(4) r show ?thesis by simp
  qed
  have stop: "cTerm c \<noteq> cColSep c" using assms(6) r by (simp add: goes_on_def)
  have b1: "binds ?s1 = map bound ?rs0 @ drop (length ?rs0) (binds s)"
    using binds_bind_all [of 0 ?rs0 s] assms(3,7) l0 by simp
  have g2: "row_fields E MODE_Csv nCol ?L (int (length ?rs0)) ?s1 =
     Inr (nCol + 2,
          ?s1\<lparr>sCtx := say (ShortRow (zFile c) ?L nCol (int (length ?rs0) + 1)) c,
            binds := take (nat (int (length ?rs0))) (binds ?s1) @ [map_option c_str zr]
                       @ replicate (nat (nCol - int (length ?rs0) - 1)) None\<rparr>)"
    using rd1 z0 stop assms(2,3,7) l0 by (intro row_fields_short) simp_all
  have bb: "take (nat (int (length ?rs0))) (binds ?s1) @ [map_option c_str zr]
                       @ replicate (nat (nCol - int (length ?rs0) - 1)) None
            = map bound rs @ replicate (nat nCol - k) None"
  proof -
    have "map bound rs = map bound ?rs0 @ [bound (last rs)]"
      using ne by (metis append_butlast_last_id list.simps(8,9) map_append)
    moreover have "nat (nCol - int (length ?rs0) - 1) = nat nCol - k"
      using l0 assms(2,3) by simp
    ultimately show ?thesis by (simp add: b1 bound_def r)
  qed
  let ?s2 = "?s1\<lparr>sCtx := say (ShortRow (zFile c) ?L nCol (int k)) c,
               binds := map bound rs @ replicate (nat nCol - k) None\<rparr>"
  have kk: "int (length ?rs0) + 1 = int k" using l0 assms(2) by simp
  have rf: "row_fields E MODE_Csv nCol ?L 0 s = Inr (nCol + 2, ?s2)"
    using g1 g2 by (simp only: bb kk) simp
  have "import_row E MODE_Csv nCol s = Some (Inr (insert_row E nCol ?L (nCol + 2) ?s2))"
    using stop by (simp add: import_row_def Let_def rf say_def)
  then have "\<exists>s'. import_row E MODE_Csv nCol s = Some (Inr s')
     \<and> binds s' = map bound rs @ replicate (nat nCol - k) None
     \<and> dbLog s' = dbLog s @ [Step (binds s')]
     \<and> err (sCtx s') =
         err (snd (last rs))
         @ [ShortRow (zFile (snd (last rs))) (nLine (sCtx s)) nCol (int k)]
         @ (if rc (db E (dbLog s) (Step (binds s'))) \<noteq> 0
            then [InsertFailed (zFile (snd (last rs))) (nLine (sCtx s))
                    (errmsg (db E (dbLog s) (Step (binds s'))))]
            else [])"
    by (simp add: insert_row_run say_def r)
  moreover note read_fields_messages_last [OF assms(1,2)]
  ultimately show ?thesis by (rule conjI)
qed

theorem short_row_is_null_filled_witness:
  "binds (projr (the (import_row (env_of (db_cols 4) []) MODE_Csv 4 (loader_of 4 ''1,2''))))
     = [Some ''1'', Some ''2'', None, None]
   \<and> dbLog (projr (the (import_row (env_of (db_cols 4) []) MODE_Csv 4 (loader_of 4 ''1,2''))))
     = [Step [Some ''1'', Some ''2'', None, None]]
   \<and> err (sCtx (projr (the (import_row (env_of (db_cols 4) []) MODE_Csv 4
                               (loader_of 4 ''1,2'')))))
     = [ShortRow ''data.csv'' 1 4 2]"
proof -
  let ?E = "env_of (db_cols 4) []"
  let ?s = "loader_of 4 ''1,2''"
  let ?rs = "projr (read_fields realloc_pad 2 (ctx_fresh ''1,2''))"
  have rd: "read_fields (realloc64 ?E) 2 (sCtx ?s) = Inr ?rs"
    unfolding env_of_def loader_of_def by code_simp
  have h: "fst (hd ?rs) \<noteq> None" "list_all goes_on (butlast ?rs)" "\<not> goes_on (last ?rs)"
    by code_simp+
  have v: "map bound ?rs = [Some ''1'', Some ''2'']" "err (snd (last ?rs)) = []"
    "zFile (snd (last ?rs)) = ''data.csv''"
    by code_simp+
  have b: "length (binds ?s) = nat 4" by (simp add: loader_of_def)
  have k: "(0::nat) < 2" "int 2 < 4" by simp_all
  from short_row_is_null_filled [OF rd k h b] obtain s' where
    s': "import_row ?E MODE_Csv 4 ?s = Some (Inr s')"
      "binds s' = map bound ?rs @ replicate (nat 4 - 2) None"
      "dbLog s' = dbLog ?s @ [Step (binds s')]"
      "err (sCtx s') =
         err (snd (last ?rs))
         @ [ShortRow (zFile (snd (last ?rs))) (nLine (sCtx ?s)) 4 (int 2)]
         @ (if rc (db ?E (dbLog ?s) (Step (binds s'))) \<noteq> 0
            then [InsertFailed (zFile (snd (last ?rs))) (nLine (sCtx ?s))
                    (errmsg (db ?E (dbLog ?s) (Step (binds s'))))]
            else [])"
    by blast
  have bs: "binds s' = [Some ''1'', Some ''2'', None, None]"
    unfolding s'(2) v(1) by (simp add: numeral_2_eq_2)
  have lg: "dbLog s' = [Step [Some ''1'', Some ''2'', None, None]]"
    unfolding s'(3) bs by (simp add: loader_of_def)
  have er: "err (sCtx s') = [ShortRow ''data.csv'' 1 4 2]"
    unfolding s'(4) v(2,3) by (simp add: loader_of_def ctx_fresh_def env_of_def db_cols_def)
  show ?thesis unfolding s'(1) using bs lg er by simp
qed

text \<open>
  C3 as the specification has it does not hold: the row \<open>1,2\<close> against four columns
  and a database that refuses the INSERT prints two messages, both with line 1.
\<close>

theorem short_row_second_message:
  "row_stderr (import_row (env_of (db_rejects 4) []) MODE_Csv 4 (loader_of 4 ''1,2''))
     = [ShortRow ''data.csv'' 1 4 2, InsertFailed ''data.csv'' 1 ''constraint failed'']"
  by code_simp

text \<open>
  A call of the reader returns a field exactly when the input is not at its end,
  provided the buffer is allocated, as it is from line 321 on.
\<close>

lemma csv_read_field_iff:
  assumes R: "realloc_ok R" and wf: "ctx_wf p" and zp: "z p \<noteq> None"
    and rd: "csv_read_one_field R False p = Inr (zr, q)"
  shows "(zr \<noteq> None) = (inp p \<noteq> [])" and "z q \<noteq> None" and "ctx_wf q"
    and "cColSep q = cColSep p" and "inp p = [] \<Longrightarrow> cTerm q = EOF"
proof -
  from csv_read_one_field_sound [OF R wf, of False] rd have post: "read_post p zr q" by simp
  then show "ctx_wf q" "cColSep q = cColSep p" "inp p = [] \<Longrightarrow> cTerm q = EOF"
    by (auto simp: read_post_def buf_inv_def tok_step_def same_cfg_def)
  from post zp show zq: "z q \<noteq> None" by (auto simp: read_post_def tok_step_def)
  show "(zr \<noteq> None) = (inp p \<noteq> [])"
  proof (cases "inp p")
    case Nil
    with post show ?thesis by (simp add: read_post_def)
  next
    case (Cons x xs)
    then have f: "fgetc (p\<lparr>n := 0\<rparr>) = (of_char x, p\<lparr>n := 0, inp := xs\<rparr>)"
      by (simp add: fgetc_def)
    from rd have "zr = z q"
      unfolding csv_read_one_field_def f
      by (auto simp: of_char_not_EOF split: sum.splits prod.splits if_splits
          dest: terminate_field_keeps)
    with zq Cons show ?thesis by simp
  qed
qed

lemma reads_return_fields:
  assumes R: "realloc_ok R"
  shows "ctx_wf p \<Longrightarrow> z p \<noteq> None \<Longrightarrow> cColSep p \<noteq> EOF \<Longrightarrow>
         read_fields R (length rs) p = Inr rs \<Longrightarrow> list_all goes_on rs \<Longrightarrow>
         list_all is_field rs \<and> ctx_wf (last_ctx p rs) \<and> z (last_ctx p rs) \<noteq> None
         \<and> cColSep (last_ctx p rs) = cColSep p"
proof (induction rs arbitrary: p)
  case Nil
  then show ?case by (simp add: last_ctx_def)
next
  case (Cons r rs)
  obtain zr q where r: "r = (zr, q)" by (cases r)
  from Cons.prems(4) have rd: "csv_read_one_field R False p = Inr (zr, q)"
    "read_fields R (length rs) q = Inr rs"
    by (auto simp: read_fields_Suc r)
  note f = csv_read_field_iff [OF R Cons.prems(1,2) rd(1)]
  from Cons.prems(5) have go: "cTerm q = cColSep q" "list_all goes_on rs"
    by (simp_all add: r) (simp add: goes_on_def)
  from go(1) f(4,5) Cons.prems(3) have "inp p \<noteq> []" by auto
  with f(1) have zr: "zr \<noteq> None" by simp
  from f(4) Cons.prems(3) have "cColSep q \<noteq> EOF" by simp
  from Cons.IH [OF f(3) f(2) this rd(2) go(2)] zr f(4) f(2,3) show ?case
    by (auto simp: is_field_def r last_ctx_def)
qed

lemma long_row_count:
  assumes R: "realloc_ok R" and wf: "ctx_wf p" and zp: "z p \<noteq> None"
    and sep: "cColSep p \<noteq> EOF"
    and rd: "read_fields R m p = Inr rs" and m: "1 < m"
    and go: "list_all goes_on (butlast rs)"
  shows "list_all is_field (butlast rs)"
    and "is_field (last rs) = (inp (snd (last (butlast rs))) \<noteq> [])"
    and "int (length (filter is_field rs))
           = (if inp (snd (last (butlast rs))) = [] then int m - 1 else int m)"
proof -
  from read_fields_length [OF rd] m have len: "length rs = m" and ne: "rs \<noteq> []" by auto
  have bl: "length (butlast rs) = m - 1" "butlast rs \<noteq> []"
    using len m by (simp_all flip: length_greater_0_conv)
  from m have "0 < m" by simp
  note sp = butlast_snoc_reads [OF rd this]
  from sp(1) have "read_fields R (length (butlast rs)) p = Inr (butlast rs)"
    unfolding bl(1) .
  from reads_return_fields [OF R wf zp sep this go]
  have a: "list_all is_field (butlast rs)" "ctx_wf (last_ctx p (butlast rs))"
    "z (last_ctx p (butlast rs)) \<noteq> None" by simp_all
  show "list_all is_field (butlast rs)" by (rule a(1))
  have lc: "last_ctx p (butlast rs) = snd (last (butlast rs))"
    using bl(2) by (simp add: last_ctx_def)
  obtain zr q where r: "last rs = (zr, q)" by (cases "last rs")
  from sp(2) have "csv_read_one_field R False (snd (last (butlast rs))) = Inr (zr, q)"
    by (auto simp: lc r read_fields_Suc One_nat_def simp del: read_fields.simps
        split: sum.splits)
  from csv_read_field_iff(1) [OF R a(2,3) [unfolded lc] this]
  show b: "is_field (last rs) = (inp (snd (last (butlast rs))) \<noteq> [])"
    by (simp add: is_field_def r)
  have "filter is_field rs = filter is_field (butlast rs @ [last rs])" using ne by simp
  also have "\<dots> = butlast rs @ (if is_field (last rs) then [last rs] else [])"
    using a(1) by (simp add: list_all_iff)
  finally have "length (filter is_field rs) = m - 1 + (if is_field (last rs) then 1 else 0)"
    using bl(1) by simp
  with b m
  show "int (length (filter is_field rs))
           = (if inp (snd (last (butlast rs))) = [] then int m - 1 else int m)"
    by auto
qed

text \<open>
  C4, as the code has it. A row for which the reader is called \<open>m\<close> times, \<open>m\<close> more
  than the number of columns, from a context whose buffer is allocated: every call but
  the last stores the column separator as the terminator and the last one something
  else. Then the loader binds the first \<open>nCol\<close> returned fields, reads the other
  \<open>m - nCol\<close> and drops them, prints one message "expected nCol columns but found m"
  with the line number the row started on, and runs the INSERT with the first \<open>nCol\<close>
  values. After the messages of the reader for these fields, the only other line it
  prints is the one of an INSERT that the database refuses. The number \<open>m\<close> in the
  message is the number of calls, one more than the number of column separators of the
  row. Every call but the last returns a field, and the last one returns a field unless
  the input ends right after the last column separator: then it returns the null
  pointer, and \<open>m\<close> is one more than the number of fields returned.
\<close>

theorem long_row_is_cut:
  assumes R: "realloc_ok (realloc64 E)" and wf: "ctx_wf (sCtx s)"
    and zp: "z (sCtx s) \<noteq> None" and sep: "cColSep (sCtx s) \<noteq> EOF"
    and rd0: "read_fields (realloc64 E) m (sCtx s) = Inr rs"
    and nCol: "0 < nCol" and long: "nCol < int m"
    and go: "list_all goes_on (butlast rs)" and stop: "\<not> goes_on (last rs)"
    and bs: "length (binds s) = nat nCol"
  shows "(\<exists>s'. import_row E MODE_Csv nCol s = Some (Inr s')
     \<and> binds s' = map bound (take (nat nCol) rs)
     \<and> dbLog s' = dbLog s @ [Step (binds s')]
     \<and> inp (sCtx s') = inp (snd (last rs))
     \<and> err (sCtx s') =
         err (snd (last rs))
         @ [LongRow (zFile (snd (last rs))) (nLine (sCtx s)) nCol (int m)]
         @ (if rc (db E (dbLog s) (Step (binds s'))) \<noteq> 0
            then [InsertFailed (zFile (snd (last rs))) (nLine (sCtx s))
                    (errmsg (db E (dbLog s) (Step (binds s'))))]
            else []))
     \<and> (\<exists>new. err (snd (last rs)) = err (sCtx s) @ new \<and> list_all from_reader new)
     \<and> list_all is_field (butlast rs)
     \<and> is_field (last rs) = (inp (snd (last (butlast rs))) \<noteq> [])
     \<and> int (length (filter is_field rs))
         = (if inp (snd (last (butlast rs))) = [] then int m - 1 else int m)"
proof -
  let ?L = "nLine (sCtx s)"
  let ?a = "nat nCol"
  let ?rs1 = "take ?a rs"
  let ?rs2 = "drop ?a rs"
  from nCol long have m1: "1 < m" by simp
  note cnt = long_row_count [OF R wf zp sep rd0 m1 go]
  from read_fields_length [OF rd0] have len: "length rs = m" .
  have am: "?a < m" "0 < ?a" using nCol long by simp_all
  have mn: "min (length rs) (nat nCol) = nat nCol" using am len by simp
  have l1: "length ?rs1 = ?a" "length ?rs2 = m - ?a" using am len by simp_all
  have ne: "rs \<noteq> []" "?rs1 \<noteq> []" "?rs2 \<noteq> []" using am len by auto
  have "hd rs = hd (butlast rs)" using len m1 by (cases rs) auto
  moreover have "butlast rs \<noteq> []" using len m1 by (cases rs) auto
  ultimately have "is_field (hd rs)" using cnt(1) by (cases "butlast rs") simp_all
  then have hd0: "fst (hd rs) \<noteq> None" by (simp add: is_field_def)
  from rd0 am have "read_fields (realloc64 E) (?a + (m - ?a)) (sCtx s) = Inr rs" by simp
  from read_fields_append [OF this]
  have rd: "read_fields (realloc64 E) (length ?rs1) (sCtx s) = Inr ?rs1"
    "read_fields (realloc64 E) (length ?rs2) (last_ctx (sCtx s) ?rs1) = Inr ?rs2"
    unfolding l1 by simp_all
  have t1: "?rs1 = take ?a (butlast rs)"
    using am len by (simp add: take_butlast)
  have go1: "list_all goes_on ?rs1"
    unfolding t1 using go by (auto simp: list_all_iff dest: in_set_takeD)
  have hd1: "fst (hd ?rs1) \<noteq> None" using hd0 am by simp
  let ?s1 = "bind_all 0 ?rs1 s"
  have "row_fields E MODE_Csv nCol ?L 0 s
      = row_fields E MODE_Csv nCol ?L (0 + int (length ?rs1)) ?s1"
    using rd(1) go1 hd1 nCol l1 by (intro row_fields_go_on) simp_all
  also have "\<dots> = Inr (nCol, ?s1)"
    using nCol by (simp add: mn row_fields_done)
  finally have rf: "row_fields E MODE_Csv nCol ?L 0 s = Inr (nCol, ?s1)" .
  have c1: "last_ctx (sCtx s) ?rs1 = snd (last ?rs1)" using ne by (simp add: last_ctx_def)
  have "goes_on (last ?rs1)" using go1 ne(2) by (simp add: list_all_iff)
  then have more: "cTerm (sCtx ?s1) = cColSep (sCtx ?s1)" by (simp add: c1 goes_on_def)
  have b2: "butlast ?rs2 = drop ?a (butlast rs)" by (simp add: drop_butlast)
  have go2: "list_all goes_on (butlast ?rs2)"
    unfolding b2 using go by (auto simp: list_all_iff dest: in_set_dropD)
  have la: "last ?rs2 = last rs" using am len by simp
  have rd2: "read_fields (realloc64 E) (length ?rs2) (sCtx ?s1) = Inr ?rs2"
    using rd(2) by simp
  have dr: "drain_extras E MODE_Csv nCol ?s1
      = Some (Inr (nCol + int (length ?rs2), ?s1\<lparr>sCtx := snd (last ?rs2)\<rparr>))"
    using rd2 ne(3) go2 stop la by (intro drain_extras_reads) simp_all
  have mm: "nCol + int (length rs - nat nCol) = int m" using am len by simp
  have b1: "binds ?s1 = map bound ?rs1"
    using binds_bind_all [of 0 ?rs1 s] bs by (simp add: mn)
  let ?s3 = "?s1\<lparr>sCtx := say (LongRow (zFile (snd (last rs))) ?L nCol (int m)) (snd (last rs))\<rparr>"
  have "import_row E MODE_Csv nCol s = Some (Inr (insert_row E nCol ?L (int m) ?s3))"
    using more by (simp add: import_row_def Let_def rf dr mm la)
  then have "\<exists>s'. import_row E MODE_Csv nCol s = Some (Inr s')
     \<and> binds s' = map bound (take (nat nCol) rs)
     \<and> dbLog s' = dbLog s @ [Step (binds s')]
     \<and> inp (sCtx s') = inp (snd (last rs))
     \<and> err (sCtx s') =
         err (snd (last rs))
         @ [LongRow (zFile (snd (last rs))) (nLine (sCtx s)) nCol (int m)]
         @ (if rc (db E (dbLog s) (Step (binds s'))) \<noteq> 0
            then [InsertFailed (zFile (snd (last rs))) (nLine (sCtx s))
                    (errmsg (db E (dbLog s) (Step (binds s'))))]
            else [])"
    using long by (simp add: insert_row_run say_def b1)
  moreover from m1 have "0 < m" by simp
  note read_fields_messages_last [OF rd0 this]
  ultimately show ?thesis using cnt by (intro conjI)
qed

theorem long_row_is_cut_witness:
  "binds (projr (the (import_row (env_of (db_cols 3) []) MODE_Csv 3
                        (loader_of 3 (''1,2,3,4,5'' @ [CHR 0x0A])))))
     = [Some ''1'', Some ''2'', Some ''3'']
   \<and> dbLog (projr (the (import_row (env_of (db_cols 3) []) MODE_Csv 3
                        (loader_of 3 (''1,2,3,4,5'' @ [CHR 0x0A])))))
     = [Step [Some ''1'', Some ''2'', Some ''3'']]
   \<and> err (sCtx (projr (the (import_row (env_of (db_cols 3) []) MODE_Csv 3
                        (loader_of 3 (''1,2,3,4,5'' @ [CHR 0x0A]))))))
     = [LongRow ''data.csv'' 1 3 5]
   \<and> length (filter is_field
        (projr (read_fields realloc_pad 5 (ctx_fresh (''1,2,3,4,5'' @ [CHR 0x0A]))))) = 5"
proof -
  let ?E = "env_of (db_cols 3) []"
  let ?s = "loader_of 3 (''1,2,3,4,5'' @ [CHR 0x0A])"
  let ?rs = "projr (read_fields realloc_pad 5 (ctx_fresh (''1,2,3,4,5'' @ [CHR 0x0A])))"
  have R: "realloc_ok (realloc64 ?E)" by (simp add: env_of_def realloc_pad_ok)
  have c: "ctx_wf (sCtx ?s)" "z (sCtx ?s) \<noteq> None" "cColSep (sCtx ?s) \<noteq> EOF"
    by (simp_all add: loader_of_def ctx_fresh_def ctx_wf_def EOF_def)
  have rd: "read_fields (realloc64 ?E) 5 (sCtx ?s) = Inr ?rs"
    unfolding env_of_def loader_of_def by code_simp
  have h: "list_all goes_on (butlast ?rs)" "\<not> goes_on (last ?rs)"
    by code_simp+
  have v: "map bound (take (nat 3) ?rs) = [Some ''1'', Some ''2'', Some ''3'']"
    "err (snd (last ?rs)) = []" "zFile (snd (last ?rs)) = ''data.csv''"
    "inp (snd (last (butlast ?rs))) \<noteq> []"
    by code_simp+
  have b: "length (binds ?s) = nat 3" by (simp add: loader_of_def)
  have k: "(0::int) < 3" "(3::int) < int 5" by simp_all
  from long_row_is_cut [OF R c rd k h b] obtain s' where
    s': "import_row ?E MODE_Csv 3 ?s = Some (Inr s')"
      "binds s' = map bound (take (nat 3) ?rs)"
      "dbLog s' = dbLog ?s @ [Step (binds s')]"
      "err (sCtx s') =
         err (snd (last ?rs))
         @ [LongRow (zFile (snd (last ?rs))) (nLine (sCtx ?s)) 3 (int 5)]
         @ (if rc (db ?E (dbLog ?s) (Step (binds s'))) \<noteq> 0
            then [InsertFailed (zFile (snd (last ?rs))) (nLine (sCtx ?s))
                    (errmsg (db ?E (dbLog ?s) (Step (binds s'))))]
            else [])"
    and cnt: "int (length (filter is_field ?rs))
         = (if inp (snd (last (butlast ?rs))) = [] then int 5 - 1 else int 5)"
    by blast
  have bs: "binds s' = [Some ''1'', Some ''2'', Some ''3'']"
    unfolding s'(2) v(1) by simp
  have lg: "dbLog s' = [Step [Some ''1'', Some ''2'', Some ''3'']]"
    unfolding s'(3) bs by (simp add: loader_of_def)
  have er: "err (sCtx s') = [LongRow ''data.csv'' 1 3 5]"
    unfolding s'(4) v(2,3) by (simp add: loader_of_def ctx_fresh_def env_of_def db_cols_def)
  from cnt v(4) have n5: "length (filter is_field ?rs) = 5" by simp
  show ?thesis unfolding s'(1) using bs lg er n5 by simp
qed

text \<open>
  C4 as the specification has it does not hold. The row \<open>1,2,3,4,5\<close> against three
  columns and a database that refuses the INSERT prints two messages. The row \<open>1,2,3,\<close>
  at the end of the input against two columns is reported with "found 4": the reader
  is called four times and returns three fields and then the null pointer.
\<close>

theorem long_row_second_message_and_null_read:
  "row_stderr (import_row (env_of (db_rejects 3) []) MODE_Csv 3
                 (loader_of 3 (''1,2,3,4,5'' @ [CHR 0x0A])))
     = [LongRow ''data.csv'' 1 3 5, InsertFailed ''data.csv'' 1 ''constraint failed'']
   \<and> row_stderr (import_row (env_of (db_cols 2) []) MODE_Csv 2 (loader_of 2 ''1,2,3,''))
     = [LongRow ''data.csv'' 1 2 4]
   \<and> (case read_fields realloc_pad 4 (ctx_fresh ''1,2,3,'') of
         Inr rs \<Rightarrow> map bound rs
       | Inl f \<Rightarrow> [])
     = [Some ''1'', Some ''2'', Some ''3'', None]"
  by code_simp

subsection \<open>Loading never leaves the buffer and always comes to an end\<close>

lemma tok_diag_row_diag: "tok_diag F L d \<Longrightarrow> L' \<le> L \<Longrightarrow> row_diag F L' d"
  by (auto simp: tok_diag_def row_diag_def split: diag.splits)

lemma tok_step_row_step:
  "tok_step L p q \<Longrightarrow> ctx_wf q \<Longrightarrow> L' \<le> L \<Longrightarrow> row_step L' p q"
  by (auto simp: tok_step_def row_step_def list_all_iff intro: tok_diag_row_diag)

lemma row_step_refl: "ctx_wf p \<Longrightarrow> row_step L p p"
  by (simp add: row_step_def same_cfg_def)

lemma row_step_trans: "row_step L p q \<Longrightarrow> row_step L q r \<Longrightarrow> row_step L p r"
  by (auto simp: row_step_def same_cfg_def)

lemma row_step_say:
  "ctx_wf p \<Longrightarrow> row_diag (zFile p) L d \<Longrightarrow> row_step L p (say d p)"
  by (simp add: row_step_def same_cfg_def say_def ctx_wf_def split: option.splits)

lemma read_post_row_step:
  "read_post p zr q \<Longrightarrow> L \<le> nLine p \<Longrightarrow> row_step L p q"
  by (auto simp: read_post_def buf_inv_def intro: tok_step_row_step)

lemma null_fill_exit:
  "null_fill nCol i s = (i', s') \<Longrightarrow> sCtx s' = sCtx s \<and> dbLog s' = dbLog s \<and> nCol < i'"
proof (induction nCol i s rule: null_fill.induct)
  case (1 nCol i s)
  show ?case
  proof (cases "i \<le> nCol")
    case True
    then have "null_fill nCol i s = null_fill nCol (i + 1) (sqlite3_bind_null i s)"
      by (subst null_fill.simps) simp
    with "1.prems" have "null_fill nCol (i + 1) (sqlite3_bind_null i s) = (i', s')" by simp
    from "1.IH" [OF True this] show ?thesis by simp
  next
    case False
    then have "null_fill nCol i s = (i, s)" by (subst null_fill.simps) simp
    with "1.prems" False show ?thesis by simp
  qed
qed

lemma read_post_progress:
  "read_post p zr q \<Longrightarrow> (cTerm q = EOF \<and> zr = None) \<or> length (inp q) < length (inp p)"
  by (auto simp: read_post_def split: if_splits)

lemma row_fields_sound:
  assumes R: "realloc_ok (realloc64 E)"
  shows "ctx_wf (sCtx s) \<Longrightarrow> L \<le> nLine (sCtx s) \<Longrightarrow> cColSep (sCtx s) \<noteq> EOF \<Longrightarrow>
     row_fields E MODE_Csv nCol L i s \<noteq> Inl MemoryFault \<and>
     (\<forall>i' s'. row_fields E MODE_Csv nCol L i s = Inr (i', s') \<longrightarrow>
         row_step L (sCtx s) (sCtx s')
         \<and> (i < nCol \<longrightarrow>
              cTerm (sCtx s') = EOF \<or> length (inp (sCtx s')) < length (inp (sCtx s))))"
proof (induction "nat (nCol - i)" arbitrary: i s rule: less_induct)
  case less
  let ?p = "sCtx s"
  note wf = less.prems(1) and L = less.prems(2) and sep = less.prems(3)
  show ?case
  proof (cases "i < nCol")
    case False
    then have "row_fields E MODE_Csv nCol L i s = Inr (i, s)" by (simp add: row_fields_done)
    with wf False show ?thesis by (simp add: row_step_refl)
  next
    case True
    note rd = csv_read_one_field_sound [OF R wf, of False]
    show ?thesis
    proof (cases "csv_read_one_field (realloc64 E) False ?p")
      case (Inl f)
      with rd have "f \<noteq> MemoryFault" by auto
      moreover from Inl True have "row_fields E MODE_Csv nCol L i s = Inl f"
        by (subst row_fields.simps) (simp add: xRead_csv)
      ultimately show ?thesis by simp
    next
      case (Inr a)
      obtain zr c1 where a: "a = (zr, c1)" by (cases a)
      from rd Inr a have post: "read_post ?p zr c1" by simp
      from post L have st1: "row_step L ?p c1" by (rule read_post_row_step)
      then have wf1: "ctx_wf c1" and cfg1: "same_cfg ?p c1" and L1: "L \<le> nLine c1"
        using L by (auto simp: row_step_def)
      from cfg1 sep have sep1: "cColSep c1 \<noteq> EOF" by (simp add: same_cfg_def)
      note prog = read_post_progress [OF post]
      let ?s1 = "sqlite3_bind_text (i + 1) zr (s\<lparr>sCtx := c1\<rparr>)"
      consider (brk) "zr = None \<and> i = 0"
        | (short) "\<not> (zr = None \<and> i = 0)" "i < nCol - 1 \<and> cTerm c1 \<noteq> cColSep c1"
        | (cont) "\<not> (zr = None \<and> i = 0)" "\<not> (i < nCol - 1 \<and> cTerm c1 \<noteq> cColSep c1)"
        by blast
      then show ?thesis
      proof cases
        case brk
        with Inr a True have "row_fields E MODE_Csv nCol L i s = Inr (i, s\<lparr>sCtx := c1\<rparr>)"
          by (subst row_fields.simps) (simp add: xRead_csv)
        with st1 prog show ?thesis by auto
      next
        case short
        let ?d = "ShortRow (zFile c1) L nCol (i + 1)"
        let ?s2 = "?s1\<lparr>sCtx := say ?d c1\<rparr>"
        obtain i1 s2 where nf: "null_fill nCol (i + 2) ?s2 = (i1, s2)"
          by (cases "null_fill nCol (i + 2) ?s2")
        note ex = null_fill_exit [OF nf]
        from Inr a True short nf
        have "row_fields E MODE_Csv nCol L i s = row_fields E MODE_Csv nCol L (i1 + 1) s2"
          by (subst row_fields.simps) (auto simp: xRead_csv csv_not_ascii Let_def)
        also from ex have "\<dots> = Inr (i1 + 1, s2)" by (simp add: row_fields_done)
        finally have res: "row_fields E MODE_Csv nCol L i s = Inr (i1 + 1, s2)" .
        from cfg1 have "row_diag (zFile c1) L ?d" by (simp add: row_diag_def)
        from row_step_say [OF wf1 this] have "row_step L c1 (say ?d c1)" .
        with st1 have "row_step L ?p (say ?d c1)" by (rule row_step_trans)
        moreover have "sCtx s2 = say ?d c1" using ex by simp
        moreover have "cTerm (say ?d c1) = cTerm c1" "inp (say ?d c1) = inp c1"
          by (simp_all add: say_def)
        ultimately show ?thesis using res prog by auto
      next
        case cont
        from Inr a True cont
        have eq: "row_fields E MODE_Csv nCol L i s = row_fields E MODE_Csv nCol L (i + 1) ?s1"
          by (subst row_fields.simps) (auto simp: xRead_csv csv_not_ascii Let_def)
        have m: "nat (nCol - (i + 1)) < nat (nCol - i)" using True by simp
        have c1: "sCtx ?s1 = c1" by simp
        from less.hyps [OF m, of ?s1] wf1 L1 sep1
        have ih: "row_fields E MODE_Csv nCol L (i + 1) ?s1 \<noteq> Inl MemoryFault"
          "\<And>i' s'. row_fields E MODE_Csv nCol L (i + 1) ?s1 = Inr (i', s') \<Longrightarrow>
              row_step L c1 (sCtx s')"
          by (simp_all only: c1) blast+
        show ?thesis
        proof (intro conjI allI impI)
          show "row_fields E MODE_Csv nCol L i s \<noteq> Inl MemoryFault" using ih(1) eq by simp
        next
          fix i' s' assume r: "row_fields E MODE_Csv nCol L i s = Inr (i', s')"
          with eq have r1: "row_fields E MODE_Csv nCol L (i + 1) ?s1 = Inr (i', s')" by simp
          from ih(2) [OF r1] have st2: "row_step L c1 (sCtx s')" .
          with st1 show "row_step L ?p (sCtx s')" by (rule row_step_trans)
          show "cTerm (sCtx s') = EOF \<or> length (inp (sCtx s')) < length (inp ?p)"
          proof (cases "length (inp c1) < length (inp ?p)")
            case True
            with st2 show ?thesis by (auto simp: row_step_def)
          next
            case False
            with prog have e: "cTerm c1 = EOF" by simp
            with sep1 cont(2) have "nCol \<le> i + 1" by auto
            then have "row_fields E MODE_Csv nCol L (i + 1) ?s1 = Inr (i + 1, ?s1)"
              by (rule row_fields_done)
            with r1 have "s' = ?s1" by auto
            with e show ?thesis by simp
          qed
        qed
      qed
    qed
  qed
qed

lemma drain_extras_sound:
  assumes R: "realloc_ok (realloc64 E)"
  shows "ctx_wf (sCtx s) \<Longrightarrow> L \<le> nLine (sCtx s) \<Longrightarrow> cColSep (sCtx s) \<noteq> EOF \<Longrightarrow>
     \<exists>r. drain_extras E MODE_Csv i s = Some r \<and> r \<noteq> Inl MemoryFault \<and>
       (\<forall>i' s'. r = Inr (i', s') \<longrightarrow>
          row_step L (sCtx s) (sCtx s') \<and> dbLog s' = dbLog s \<and> binds s' = binds s
          \<and> (length (inp (sCtx s')) < length (inp (sCtx s)) \<or> cTerm (sCtx s') = EOF))"
proof (induction "length (inp (sCtx s))" arbitrary: i s rule: less_induct)
  case less
  let ?p = "sCtx s"
  note wf = less.prems(1) and L = less.prems(2) and sep = less.prems(3)
  note rd = csv_read_one_field_sound [OF R wf, of False]
  show ?case
  proof (cases "csv_read_one_field (realloc64 E) False ?p")
    case (Inl f)
    with rd have "f \<noteq> MemoryFault" by auto
    moreover from Inl have "drain_extras E MODE_Csv i s = Some (Inl f)"
      by (subst drain_extras.simps) (simp add: xRead_csv)
    ultimately show ?thesis by simp
  next
    case (Inr a)
    obtain zr c1 where a: "a = (zr, c1)" by (cases a)
    from rd Inr a have post: "read_post ?p zr c1" by simp
    from post L have st1: "row_step L ?p c1" by (rule read_post_row_step)
    then have wf1: "ctx_wf c1" and cfg1: "same_cfg ?p c1" and L1: "L \<le> nLine c1"
      using L by (auto simp: row_step_def)
    from cfg1 sep have sep1: "cColSep c1 \<noteq> EOF" by (simp add: same_cfg_def)
    note prog = read_post_progress [OF post]
    show ?thesis
    proof (cases "cTerm c1 = cColSep c1")
      case False
      with Inr a have "drain_extras E MODE_Csv i s = Some (Inr (i + 1, s\<lparr>sCtx := c1\<rparr>))"
        by (subst drain_extras.simps) (simp add: xRead_csv)
      with st1 prog show ?thesis by auto
    next
      case True
      with Inr a
      have eq: "drain_extras E MODE_Csv i s = drain_extras E MODE_Csv (i + 1) (s\<lparr>sCtx := c1\<rparr>)"
        by (subst drain_extras.simps) (simp add: xRead_csv)
      from True sep1 prog have lt: "length (inp c1) < length (inp ?p)" by auto
      have "\<exists>r. drain_extras E MODE_Csv (i + 1) (s\<lparr>sCtx := c1\<rparr>) = Some r
              \<and> r \<noteq> Inl MemoryFault \<and>
              (\<forall>i' s'. r = Inr (i', s') \<longrightarrow>
                 row_step L (sCtx (s\<lparr>sCtx := c1\<rparr>)) (sCtx s')
                 \<and> dbLog s' = dbLog (s\<lparr>sCtx := c1\<rparr>) \<and> binds s' = binds (s\<lparr>sCtx := c1\<rparr>)
                 \<and> (length (inp (sCtx s')) < length (inp (sCtx (s\<lparr>sCtx := c1\<rparr>)))
                    \<or> cTerm (sCtx s') = EOF))"
        using lt wf1 L1 sep1 by (intro less.hyps) simp_all
      then obtain r where r: "drain_extras E MODE_Csv (i + 1) (s\<lparr>sCtx := c1\<rparr>) = Some r"
          "r \<noteq> Inl MemoryFault"
          "\<And>i' s'. r = Inr (i', s') \<Longrightarrow>
              row_step L c1 (sCtx s') \<and> dbLog s' = dbLog s \<and> binds s' = binds s
              \<and> (length (inp (sCtx s')) < length (inp c1) \<or> cTerm (sCtx s') = EOF)"
        by auto
      show ?thesis
        using r(1,2) eq r(3) st1 lt by (auto intro: row_step_trans)
    qed
  qed
qed

lemma insert_row_step:
  "ctx_wf (sCtx s) \<Longrightarrow>
   row_step L (sCtx s) (sCtx (insert_row E nCol L i s))
   \<and> inp (sCtx (insert_row E nCol L i s)) = inp (sCtx s)
   \<and> cTerm (sCtx (insert_row E nCol L i s)) = cTerm (sCtx s)"
  by (auto simp: insert_row_def Let_def say_def row_step_def same_cfg_def ctx_wf_def
      row_diag_def split: option.splits)

lemma import_row_sound:
  assumes R: "realloc_ok (realloc64 E)" and wf: "ctx_wf (sCtx s)"
    and sep: "cColSep (sCtx s) \<noteq> EOF"
  shows "\<exists>r. import_row E MODE_Csv nCol s = Some r \<and> r \<noteq> Inl MemoryFault \<and>
           (\<forall>s'. r = Inr s' \<longrightarrow>
              row_step (nLine (sCtx s)) (sCtx s) (sCtx s')
              \<and> (0 < nCol \<longrightarrow>
                   cTerm (sCtx s') = EOF
                   \<or> length (inp (sCtx s')) < length (inp (sCtx s))))"
proof -
  let ?p = "sCtx s" and ?L = "nLine (sCtx s)"
  note rf = row_fields_sound [OF R wf _ sep, of ?L nCol 0]
  show ?thesis
  proof (cases "row_fields E MODE_Csv nCol ?L 0 s")
    case (Inl f)
    with rf have "f \<noteq> MemoryFault" by auto
    moreover from Inl have "import_row E MODE_Csv nCol s = Some (Inl f)"
      by (simp add: import_row_def)
    ultimately show ?thesis by simp
  next
    case (Inr a)
    obtain i s1 where a: "a = (i, s1)" by (cases a)
    from rf Inr a have st1: "row_step ?L ?p (sCtx s1)"
      and prog1: "0 < nCol \<Longrightarrow>
            cTerm (sCtx s1) = EOF \<or> length (inp (sCtx s1)) < length (inp ?p)"
      by auto
    from st1 have wf1: "ctx_wf (sCtx s1)" and L1: "?L \<le> nLine (sCtx s1)"
      and sep1: "cColSep (sCtx s1) \<noteq> EOF"
      using sep by (auto simp: row_step_def same_cfg_def)
    show ?thesis
    proof (cases "cTerm (sCtx s1) = cColSep (sCtx s1)")
      case False
      with Inr a
      have "import_row E MODE_Csv nCol s = Some (Inr (insert_row E nCol ?L i s1))"
        by (simp add: import_row_def Let_def)
      moreover note insert_row_step [OF wf1, of ?L E nCol i]
      ultimately show ?thesis using st1 prog1 by (auto intro: row_step_trans)
    next
      case True
      from drain_extras_sound [OF R wf1 L1 sep1, of i] obtain r where
        r: "drain_extras E MODE_Csv i s1 = Some r" "r \<noteq> Inl MemoryFault"
          "\<And>i' s'. r = Inr (i', s') \<Longrightarrow> row_step ?L (sCtx s1) (sCtx s')"
        by blast
      show ?thesis
      proof (cases r)
        case (Inl f)
        with r Inr a True have "import_row E MODE_Csv nCol s = Some (Inl f)"
          by (simp add: import_row_def Let_def)
        with r(2) Inl show ?thesis by simp
      next
        case b: (Inr b)
        obtain i2 s2 where b2: "b = (i2, s2)" by (cases b)
        let ?d = "LongRow (zFile (sCtx s2)) ?L nCol i2"
        let ?s3 = "s2\<lparr>sCtx := say ?d (sCtx s2)\<rparr>"
        from r(3) b b2 have st2: "row_step ?L (sCtx s1) (sCtx s2)" by simp
        with st1 have st12: "row_step ?L ?p (sCtx s2)" by (rule row_step_trans)
        then have wf2: "ctx_wf (sCtx s2)" and f2: "zFile (sCtx s2) = zFile ?p"
          by (auto simp: row_step_def same_cfg_def)
        have "row_diag (zFile (sCtx s2)) ?L ?d" by (simp add: row_diag_def)
        from row_step_say [OF wf2 this] st12
        have st3: "row_step ?L ?p (sCtx ?s3)" by (auto intro: row_step_trans)
        then have wf3: "ctx_wf (sCtx ?s3)" by (simp add: row_step_def)
        note ins = insert_row_step [OF wf3, of ?L E nCol i2]
        from r(1) b b2 Inr a True
        have res: "import_row E MODE_Csv nCol s = Some (Inr (insert_row E nCol ?L i2 ?s3))"
          by (simp add: import_row_def Let_def)
        from True sep1 prog1 have "0 < nCol \<Longrightarrow> length (inp (sCtx s1)) < length (inp ?p)"
          by auto
        moreover from st2 have "length (inp (sCtx s2)) \<le> length (inp (sCtx s1))"
          by (simp add: row_step_def)
        moreover have "inp (sCtx ?s3) = inp (sCtx s2)" by (simp add: say_def)
        ultimately have "0 < nCol \<Longrightarrow>
            length (inp (sCtx (insert_row E nCol ?L i2 ?s3))) < length (inp ?p)"
          using ins by simp
        moreover from st3 ins
        have "row_step ?L ?p (sCtx (insert_row E nCol ?L i2 ?s3))"
          by (blast intro: row_step_trans)
        ultimately show ?thesis using res by simp
      qed
    qed
  qed
qed





subsection \<open>The value returned after the rows\<close>





subsection \<open>The line numbers of the messages\<close>

text \<open>
  C5, as the code has it. The messages a row adds to \<open>stderr\<close> are about the file being
  read. Those of the loader, for a row with too few or too many fields and for an INSERT
  that failed, carry the number of the line on which the row started. Those of the field
  reader carry a line number that is at least that one, and need not be that one. For
  every call of the reader, the message for a quoted field that is never closed carries
  the line on which the call started, and the message for a quote that is not escaped
  carries a line between the one on which the call started and the one reached when the
  call returns.
\<close>

theorem row_messages_lines:
  assumes R: "realloc_ok (realloc64 E)" and wf: "ctx_wf (sCtx s)"
    and sep: "cColSep (sCtx s) \<noteq> EOF"
    and row: "import_row E MODE_Csv nCol s = Some (Inr s')"
    and rd: "csv_read_one_field (realloc64 E) False p = Inr (zr, p')"
  shows "(\<exists>new. err (sCtx s') = err (sCtx s) @ new
               \<and> list_all (row_diag (zFile (sCtx s)) (nLine (sCtx s))) new)
       \<and> (\<exists>new. err p' = err p @ new
               \<and> list_all (reader_diag (zFile p) (nLine p) (nLine p) (nLine p')) new)"
proof
  show "\<exists>new. err (sCtx s') = err (sCtx s) @ new
               \<and> list_all (row_diag (zFile (sCtx s)) (nLine (sCtx s))) new"
    using import_row_sound [OF R wf sep, of nCol] row by (auto simp: row_step_def)
  show "\<exists>new. err p' = err p @ new
               \<and> list_all (reader_diag (zFile p) (nLine p) (nLine p) (nLine p')) new"
    using csv_read_messages [OF rd] by (simp add: reader_step_def)
qed

theorem row_messages_lines_witness:
  "row_stderr (import_row (env_of (db_rejects 3) []) MODE_Csv 3
                 (loader_of 3 stray_quote_example))
     = [UnescapedQuote ''data.csv'' 2, ShortRow ''data.csv'' 1 3 2,
        InsertFailed ''data.csv'' 1 ''constraint failed'']
   \<and> list_all (row_diag ''data.csv'' 1)
       (row_stderr (import_row (env_of (db_rejects 3) []) MODE_Csv 3
                      (loader_of 3 stray_quote_example)))
   \<and> (case csv_read_one_field realloc_pad False (ctx_fresh open_field_example) of
         Inr (zr, p') \<Rightarrow> (err p', nLine p')
       | Inl f \<Rightarrow> ([], 0))
     = ([UnescapedQuote ''data.csv'' 2, UnterminatedQuote ''data.csv'' 1], 3)
   \<and> list_all (reader_diag ''data.csv'' 1 1 3)
       [UnescapedQuote ''data.csv'' 2, UnterminatedQuote ''data.csv'' 1]"
proof -
  let ?E = "env_of (db_rejects 3) []" and ?s = "loader_of 3 stray_quote_example"
  let ?s' = "projr (the (import_row ?E MODE_Csv 3 ?s))"
  let ?p = "ctx_fresh open_field_example"
  let ?r = "projr (csv_read_one_field realloc_pad False ?p)"
  have R: "realloc_ok (realloc64 ?E)" by (simp add: env_of_def realloc_pad_ok)
  have wf: "ctx_wf (sCtx ?s)" by (simp add: loader_of_def ctx_fresh_def ctx_wf_def)
  have sep: "cColSep (sCtx ?s) \<noteq> EOF" by (simp add: loader_of_def ctx_fresh_def EOF_def)
  have row: "import_row ?E MODE_Csv 3 ?s = Some (Inr ?s')" by code_simp
  have rd: "csv_read_one_field (realloc64 ?E) False ?p = Inr (fst ?r, snd ?r)"
    unfolding env_of_def by code_simp
  have f: "zFile (sCtx ?s) = ''data.csv''" "nLine (sCtx ?s) = 1" "err (sCtx ?s) = []"
    "zFile ?p = ''data.csv''" "nLine ?p = 1" "err ?p = []"
    by (simp_all add: loader_of_def ctx_fresh_def)
  have v: "err (snd ?r) = [UnescapedQuote ''data.csv'' 2, UnterminatedQuote ''data.csv'' 1]"
    "nLine (snd ?r) = 3"
    by code_simp+
  from row_messages_lines [OF R wf sep row rd]
  have a: "list_all (row_diag ''data.csv'' 1) (err (sCtx ?s'))"
    and b: "list_all (reader_diag ''data.csv'' 1 1 3)
              [UnescapedQuote ''data.csv'' 2, UnterminatedQuote ''data.csv'' 1]"
    unfolding f v by simp_all
  have c: "row_stderr (import_row ?E MODE_Csv 3 ?s) = err (sCtx ?s')"
    by (subst row) (simp add: row_stderr_def)
  have d: "row_stderr (import_row ?E MODE_Csv 3 ?s)
      = [UnescapedQuote ''data.csv'' 2, ShortRow ''data.csv'' 1 3 2,
         InsertFailed ''data.csv'' 1 ''constraint failed'']"
    by code_simp
  have e: "(case csv_read_one_field realloc_pad False ?p of
         Inr (zr, p') \<Rightarrow> (err p', nLine p')
       | Inl f \<Rightarrow> ([], 0))
     = ([UnescapedQuote ''data.csv'' 2, UnterminatedQuote ''data.csv'' 1], 3)"
    by code_simp
  from a b c d e show ?thesis by simp
qed

text \<open>
  C5 as the specification has it does not hold. Two rows that start on line 1: in the
  first the quote that is not escaped is reported with line 2, where it is found; in
  the second the field that is never closed is reported with line 2, where that field
  starts.
\<close>

theorem reader_messages_carry_later_line:
  "nLine (sCtx (loader_of 2 stray_quote_example)) = 1
   \<and> row_stderr (import_row (env_of (db_cols 2) []) MODE_Csv 2
                   (loader_of 2 stray_quote_example))
       = [UnescapedQuote ''data.csv'' 2]
   \<and> nLine (sCtx (loader_of 2 open_quote_example)) = 1
   \<and> row_stderr (import_row (env_of (db_cols 2) []) MODE_Csv 2
                   (loader_of 2 open_quote_example))
       = [UnterminatedQuote ''data.csv'' 2]"
  by code_simp

end
